theory Spec2Isabelle
  imports Complex_Main "HOL-Library.Word"
begin

unbundle bit_operations_syntax

section \<open>Record pointers\<close>

text \<open>
  Source: \<^verbatim>\<open>src/data-index.js\<close>, functions \<^verbatim>\<open>_createRecordPointer\<close> and
  \<^verbatim>\<open>_parseRecordPointer\<close>. A record pointer is a JavaScript array of numbers, modelled as a
  \<open>nat list\<close>. JavaScript strings are modelled as \<open>string\<close>; \<^verbatim>\<open>charCodeAt\<close> is \<open>of_char\<close> and
  \<^verbatim>\<open>String.fromCharCode\<close> is \<open>char_of\<close> (both agree with JavaScript on the ASCII range the
  layout comment of the source prescribes). A read outside the array gives \<^verbatim>\<open>undefined\<close>
  (\<open>None\<close>); arithmetic on \<^verbatim>\<open>undefined\<close> gives \<^verbatim>\<open>NaN\<close> (\<open>None\<close> as an index).
\<close>

definition charCodeAt :: "char \<Rightarrow> nat" where
  "charCodeAt c = of_char c"

definition fromCharCode :: "nat option \<Rightarrow> char" where
  "fromCharCode n = (case n of None \<Rightarrow> char_of (0::nat) | Some k \<Rightarrow> char_of k)"

fun wildcard_bytes :: "string list \<Rightarrow> nat list" where
  "wildcard_bytes [] = []"
| "wildcard_bytes (wildcard # rest) =
     (length wildcard # map charCodeAt wildcard) @ wildcard_bytes rest"

definition createRecordPointer :: "string list \<Rightarrow> string \<Rightarrow> nat list" where
  "createRecordPointer wildcards key =
     [length wildcards] @ wildcard_bytes wildcards @ [length key] @ map charCodeAt key"

datatype rp_error = InvalidRecordPointerLength

record parsed_pointer =
  rp_key :: string
  rp_path :: string
  rp_wildcards :: "string list"

definition rp_at :: "nat list \<Rightarrow> nat option \<Rightarrow> nat option" where
  "rp_at recordPointer index =
     (case index of
        None \<Rightarrow> None
      | Some i \<Rightarrow> if i < length recordPointer then Some (recordPointer ! i) else None)"

definition read_chars :: "nat list \<Rightarrow> nat option \<Rightarrow> nat option \<Rightarrow> string" where
  "read_chars recordPointer index len =
     (case len of
        None \<Rightarrow> []
      | Some n \<Rightarrow>
          map (\<lambda>j. fromCharCode (rp_at recordPointer (map_option (\<lambda>i. i + j + 1) index))) [0..<n])"

definition advance :: "nat option \<Rightarrow> nat option \<Rightarrow> nat option" where
  "advance index len =
     (case index of
        None \<Rightarrow> None
      | Some i \<Rightarrow> (case len of None \<Rightarrow> None | Some n \<Rightarrow> Some (i + (n + 1))))"

fun parse_wildcards :: "nat list \<Rightarrow> nat \<Rightarrow> nat option \<Rightarrow> string list \<times> nat option" where
  "parse_wildcards recordPointer 0 index = ([], index)"
| "parse_wildcards recordPointer (Suc n) index =
     (let len = rp_at recordPointer index;
          wildcard = read_chars recordPointer index len;
          (rest, index') = parse_wildcards recordPointer n (advance index len)
      in (wildcard # rest, index'))"

fun replace_stars :: "string \<Rightarrow> string list \<Rightarrow> string" where
  "replace_stars [] wildcards = []"
| "replace_stars (c # cs) wildcards =
     (if c = CHR ''*'' then
        (case wildcards of
           [] \<Rightarrow> ''undefined'' @ replace_stars cs []
         | wildcard # rest \<Rightarrow> wildcard @ replace_stars cs rest)
      else c # replace_stars cs wildcards)"

definition parseRecordPointer :: "string \<Rightarrow> nat list \<Rightarrow> rp_error + parsed_pointer" where
  "parseRecordPointer path recordPointer =
     (if length recordPointer = 0 then Inl InvalidRecordPointerLength
      else
        let wildcardsLength = recordPointer ! 0;
            (wildcards, index) = parse_wildcards recordPointer wildcardsLength (Some 1);
            keyLength = rp_at recordPointer index;
            key = read_chars recordPointer index keyLength;
            path' = (if length wildcards > 0 then replace_stars path wildcards else path)
        in Inr \<lparr>rp_key = key, rp_path = path' @ ''/'' @ key, rp_wildcards = wildcards\<rparr>)"

text \<open>
  The claim's wording, for comparison: an index path with one \<open>*\<close> per wildcard is a first
  star-free segment followed by \<open>*\<close>-prefixed star-free segments; binding it replaces each
  \<open>*\<close> by the wildcard value that stands at the same position.
\<close>

fun star_path :: "string \<Rightarrow> string list \<Rightarrow> string" where
  "star_path seg [] = seg"
| "star_path seg (next_seg # segs) = seg @ ''*'' @ star_path next_seg segs"

fun bound_path :: "string \<Rightarrow> (string \<times> string) list \<Rightarrow> string" where
  "bound_path seg [] = seg"
| "bound_path seg ((wildcard, next_seg) # rest) = seg @ wildcard @ bound_path next_seg rest"

lemma read_chars_encoded:
  "read_chars (pre @ (length w # map charCodeAt w) @ post) (Some (length pre)) (Some (length w)) = w"
  by (auto simp: read_chars_def rp_at_def fromCharCode_def charCodeAt_def nth_append
      intro!: nth_equalityI)

lemma rp_at_encoded:
  "rp_at (pre @ (n # xs)) (Some (length pre)) = Some n"
  by (simp add: rp_at_def)

lemma parse_wildcards_encoded:
  "parse_wildcards (pre @ wildcard_bytes ws @ post) (length ws) (Some (length pre))
     = (ws, Some (length pre + length (wildcard_bytes ws)))"
proof (induction ws arbitrary: pre)
  case Nil
  then show ?case by simp
next
  case (Cons w ws)
  let ?pre' = "pre @ (length w # map charCodeAt w)"
  have len: "rp_at (pre @ wildcard_bytes (w # ws) @ post) (Some (length pre)) = Some (length w)"
    by (simp add: rp_at_def)
  have chars: "read_chars (pre @ wildcard_bytes (w # ws) @ post) (Some (length pre)) (Some (length w)) = w"
    using read_chars_encoded [of pre w "wildcard_bytes ws @ post"] by simp
  have adv: "advance (Some (length pre)) (Some (length w)) = Some (length ?pre')"
    by (simp add: advance_def)
  have split: "pre @ wildcard_bytes (w # ws) @ post = ?pre' @ wildcard_bytes ws @ post"
    by simp
  have "parse_wildcards (?pre' @ wildcard_bytes ws @ post) (length ws) (Some (length ?pre'))
          = (ws, Some (length ?pre' + length (wildcard_bytes ws)))"
    by (rule Cons.IH)
  then show ?case
    using len chars adv unfolding split [symmetric] by simp
qed

lemma replace_stars_star_free:
  "CHR ''*'' \<notin> set seg \<Longrightarrow> replace_stars (seg @ rest) ws = seg @ replace_stars rest ws"
  by (induction seg) auto

lemma replace_stars_bound:
  "CHR ''*'' \<notin> set seg \<Longrightarrow> \<forall>s \<in> set (map snd binds). CHR ''*'' \<notin> set s \<Longrightarrow>
     replace_stars (star_path seg (map snd binds)) (map fst binds) = bound_path seg binds"
proof (induction binds arbitrary: seg)
  case Nil
  then show ?case using replace_stars_star_free [of seg "[]" "[]"] by simp
next
  case (Cons b binds)
  obtain w s where b: "b = (w, s)" by (cases b)
  have "replace_stars (seg @ ''*'' @ star_path s (map snd binds)) (w # map fst binds)
          = seg @ w @ replace_stars (star_path s (map snd binds)) (map fst binds)"
    using Cons.prems(1) by (simp add: replace_stars_star_free)
  also have "replace_stars (star_path s (map snd binds)) (map fst binds) = bound_path s binds"
    using Cons.prems(2) b by (intro Cons.IH) auto
  finally show ?case by (simp add: b)
qed

lemma parse_created_pointer:
  "parseRecordPointer path (createRecordPointer ws key)
     = Inr \<lparr>rp_key = key,
            rp_path = (if length ws > 0 then replace_stars path ws else path) @ ''/'' @ key,
            rp_wildcards = ws\<rparr>"
proof -
  let ?rp = "createRecordPointer ws key"
  have rp: "?rp = [length ws] @ wildcard_bytes ws @ (length key # map charCodeAt key)"
    by (simp add: createRecordPointer_def)
  have pw: "parse_wildcards ?rp (length ws) (Some 1) = (ws, Some (1 + length (wildcard_bytes ws)))"
    using parse_wildcards_encoded [of "[length ws]" ws "length key # map charCodeAt key"]
    unfolding rp by simp
  have rp2: "?rp = ([length ws] @ wildcard_bytes ws) @ (length key # map charCodeAt key) @ []"
    by (simp add: createRecordPointer_def)
  have kl: "rp_at ?rp (Some (1 + length (wildcard_bytes ws))) = Some (length key)"
    using rp_at_encoded [of "[length ws] @ wildcard_bytes ws" "length key" "map charCodeAt key"]
    unfolding rp by simp
  have kc: "read_chars ?rp (Some (1 + length (wildcard_bytes ws))) (Some (length key)) = key"
    using read_chars_encoded [of "[length ws] @ wildcard_bytes ws" key "[]"]
    unfolding rp2 by simp
  have hd: "?rp ! 0 = length ws" "length ?rp \<noteq> 0"
    by (simp_all add: createRecordPointer_def)
  show ?thesis
    unfolding parseRecordPointer_def using hd pw kl kc by (simp add: Let_def)
qed

text \<open>
  C3. Round trip of the record-pointer codec: parsing the array made by
  \<open>createRecordPointer\<close> from the wildcard values and the child key, against an index path
  that has exactly one \<open>*\<close> per wildcard value, gives back the key and the wildcard list, and
  the path is the index path with every \<open>*\<close> replaced by the wildcard value of the same
  position, followed by \<open>/\<close> and the key. (The bounds of 255 characters and the ASCII range of
  the claim are not needed while the pointer stays an array of numbers.)
\<close>

theorem record_pointer_roundtrip:
  assumes "CHR ''*'' \<notin> set seg"
    and "\<forall>s \<in> set (map snd binds). CHR ''*'' \<notin> set s"
  shows "parseRecordPointer (star_path seg (map snd binds))
           (createRecordPointer (map fst binds) key)
         = Inr \<lparr>rp_key = key,
                rp_path = bound_path seg binds @ ''/'' @ key,
                rp_wildcards = map fst binds\<rparr>"
proof -
  have "(if length (map fst binds) > 0
         then replace_stars (star_path seg (map snd binds)) (map fst binds)
         else star_path seg (map snd binds)) = bound_path seg binds"
  proof (cases binds)
    case Nil
    then show ?thesis by simp
  next
    case (Cons b bs)
    then show ?thesis using replace_stars_bound [OF assms] by simp
  qed
  then show ?thesis
    by (simp only: parse_created_pointer)
qed

theorem record_pointer_roundtrip_witness:
  "parseRecordPointer ''users/*/posts'' (createRecordPointer [''u1''] ''p2'')
     = Inr \<lparr>rp_key = ''p2'', rp_path = ''users/u1/posts/p2'', rp_wildcards = [''u1'']\<rparr>"
  using record_pointer_roundtrip [of "''users/''" "[(''u1'', ''/posts'')]" "''p2''"]
  by simp

section \<open>The per-index lock queue\<close>

text \<open>
  Source: \<^verbatim>\<open>src/data-index.js\<close>, \<^verbatim>\<open>DataIndex._lock\<close>. A lock request is the object the
  source builds (\<^verbatim>\<open>forWriting\<close>, \<^verbatim>\<open>comment\<close>); its \<^verbatim>\<open>resolve\<close> callback is what waking the
  request means, so \<open>release\<close> returns the requests it resolves, in order.
\<close>

record lock_request =
  forWriting :: bool
  comment :: string

record lock_state =
  isLocked :: bool
  stateForWriting :: "bool option"
  stateComment :: "string option"

record index_lock =
  lockQueue :: "lock_request list"
  lockState :: lock_state

text \<open>The \<^verbatim>\<open>while (true)\<close> loop of \<^verbatim>\<open>release\<close>: it shifts requests from the queue to \<^verbatim>\<open>pending\<close>.\<close>

fun release_loop :: "lock_request list \<Rightarrow> lock_request list \<Rightarrow> lock_request list \<times> lock_request list" where
  "release_loop pending [] = (pending, [])"
| "release_loop pending (next_req # queue) =
     (if forWriting next_req then
        (if length pending = 0 then (pending @ [next_req], queue)
         else (pending, next_req # queue))
      else release_loop (pending @ [next_req]) queue)"

fun join_comments :: "string \<Rightarrow> lock_request list \<Rightarrow> string" where
  "join_comments acc [] = acc"
| "join_comments acc (l # ls) =
     join_comments ((if length acc > 0 then acc @ '' && '' else acc) @ comment l) ls"

definition release :: "index_lock \<Rightarrow> lock_request list \<times> index_lock" where
  "release l =
     (let (pending, queue) = release_loop [] (lockQueue l);
          st = (if length pending = 0
                then \<lparr>isLocked = False, stateForWriting = None, stateComment = None\<rparr>
                else (lockState l)\<lparr>stateForWriting := Some (forWriting (pending ! 0)),
                                    stateComment := Some (join_comments '''' pending)\<rparr>)
      in (pending, \<lparr>lockQueue = queue, lockState = st\<rparr>))"

text \<open>
  \<^verbatim>\<open>_lock(forWriting, comment)\<close>: the request is granted at once when the index is not
  locked (result \<open>True\<close>), and queued otherwise.
\<close>

definition lock :: "index_lock \<Rightarrow> bool \<Rightarrow> string \<Rightarrow> bool \<times> index_lock" where
  "lock l fw c =
     (if isLocked (lockState l)
      then (False, l\<lparr>lockQueue := lockQueue l @ [\<lparr>forWriting = fw, comment = c\<rparr>]\<rparr>)
      else (True, l\<lparr>lockState := \<lparr>isLocked = True, stateForWriting = Some fw,
                                    stateComment = Some c\<rparr>\<rparr>))"

abbreviation is_reader :: "lock_request \<Rightarrow> bool" where
  "is_reader r \<equiv> \<not> forWriting r"

lemma release_loop_pending:
  "pending \<noteq> [] \<Longrightarrow>
     release_loop pending queue = (pending @ takeWhile is_reader queue, dropWhile is_reader queue)"
  by (induction queue arbitrary: pending) auto

lemma release_loop_empty:
  "release_loop [] queue =
     (case queue of
        [] \<Rightarrow> ([], [])
      | next_req # rest \<Rightarrow>
          if forWriting next_req then ([next_req], rest)
          else (takeWhile is_reader queue, dropWhile is_reader queue))"
  by (cases queue) (auto simp: release_loop_pending)

text \<open>
  C8. What one call of \<open>release\<close> wakes, for every state of the queue: nothing when the
  queue is empty; exactly the head when the head is a writer (every other request stays
  queued); the maximal prefix of consecutive readers when the head is a reader. The woken
  requests leave the queue from its front, a writer is only ever woken alone, and the index
  stays locked exactly when something was woken.
\<close>

theorem release_wakes_head:
  "fst (release l) =
     (case lockQueue l of
        [] \<Rightarrow> []
      | next_req # rest \<Rightarrow>
          if forWriting next_req then [next_req] else takeWhile is_reader (lockQueue l))
   \<and> lockQueue (snd (release l)) = drop (length (fst (release l))) (lockQueue l)
   \<and> (\<forall>w \<in> set (fst (release l)). forWriting w \<longrightarrow> fst (release l) = [w])
   \<and> isLocked (lockState (snd (release l))) = (isLocked (lockState l) \<and> lockQueue l \<noteq> [])"
proof -
  obtain p q where rl: "release_loop [] (lockQueue l) = (p, q)"
    by (cases "release_loop [] (lockQueue l)")
  have g: "fst (release l) = p" and qq: "lockQueue (snd (release l)) = q"
    and st: "isLocked (lockState (snd (release l))) = (p \<noteq> [] \<and> isLocked (lockState l))"
    by (simp_all add: release_def rl)
  show ?thesis
  proof (cases "lockQueue l")
    case Nil
    with rl have "p = []" "q = []" by simp_all
    then show ?thesis using Nil g qq st by simp
  next
    case (Cons n rest)
    show ?thesis
    proof (cases "forWriting n")
      case True
      with rl Cons have "p = [n]" "q = rest" by simp_all
      then show ?thesis using Cons True g qq st by auto
    next
      case False
      have pq: "p = takeWhile is_reader (lockQueue l)" "q = dropWhile is_reader (lockQueue l)"
        using rl Cons False release_loop_empty [of "lockQueue l"] by simp_all
      have "\<forall>w \<in> set p. \<not> forWriting w"
        unfolding pq by (auto dest: set_takeWhileD)
      moreover have "q = drop (length p) (lockQueue l)"
        unfolding pq by (simp add: dropWhile_eq_drop)
      moreover have "p \<noteq> []"
        unfolding pq using Cons False by simp
      ultimately show ?thesis using Cons False g qq st pq by auto
    qed
  qed
qed



theorem release_wakes_head_witness:
  "fst (release \<lparr>lockQueue = [\<lparr>forWriting = False, comment = ''r1''\<rparr>,
                              \<lparr>forWriting = False, comment = ''r2''\<rparr>,
                              \<lparr>forWriting = True, comment = ''w1''\<rparr>,
                              \<lparr>forWriting = False, comment = ''r3''\<rparr>],
                 lockState = \<lparr>isLocked = True, stateForWriting = Some True,
                              stateComment = Some ''w0''\<rparr>\<rparr>)
     = [\<lparr>forWriting = False, comment = ''r1''\<rparr>, \<lparr>forWriting = False, comment = ''r2''\<rparr>]"
  using release_wakes_head [of "\<lparr>lockQueue = [\<lparr>forWriting = False, comment = ''r1''\<rparr>,
                              \<lparr>forWriting = False, comment = ''r2''\<rparr>,
                              \<lparr>forWriting = True, comment = ''w1''\<rparr>,
                              \<lparr>forWriting = False, comment = ''r3''\<rparr>],
                 lockState = \<lparr>isLocked = True, stateForWriting = Some True,
                              stateComment = Some ''w0''\<rparr>\<rparr>", THEN conjunct1]
  by simp

section \<open>The index file header\<close>

text \<open>
  Source: \<^verbatim>\<open>src/data-index.js\<close>, \<^verbatim>\<open>DataIndex._writeIndexHeader\<close>. The header is built as a
  JavaScript array of numbers and written through \<^verbatim>\<open>Buffer.from\<close>, which keeps the low 8
  bits of every element. \<^verbatim>\<open>numberToBytes\<close> and \<^verbatim>\<open>textEncoder.encode\<close> come from packages
  outside the repository: they are parameters of the model.
\<close>

datatype info_value =
    VUndefined
  | VString string
  | VNumber int
  | VBoolean bool
  | VArray "info_value list"
  | VOther

datatype header_error = ArrayTooLarge | InvalidValueType

record codecs =
  numberToBytes :: "int \<Rightarrow> nat list"
  textEncode :: "string \<Rightarrow> nat list"

text \<open>
  \<^verbatim>\<open>(n >> k) & 0xff\<close>: JavaScript converts \<open>n\<close> to a signed 32-bit integer, shifts it
  arithmetically and masks the result.
\<close>

definition shr_byte :: "nat \<Rightarrow> nat \<Rightarrow> nat" where
  "shr_byte n k = unat (signed_drop_bit k (word_of_nat n :: 32 word) AND 0xff)"

definition addNameBytes :: "nat list \<Rightarrow> string \<Rightarrow> nat list" where
  "addNameBytes bytes name = bytes @ [length name] @ map charCodeAt name"

fun addValueBytes :: "codecs \<Rightarrow> nat list \<Rightarrow> info_value \<Rightarrow> header_error + nat list"
  and addValuesBytes :: "codecs \<Rightarrow> nat list \<Rightarrow> info_value list \<Rightarrow> header_error + nat list"
where
  "addValueBytes cd bytes VUndefined = Inr (bytes @ [0])"
| "addValueBytes cd bytes (VString s) =
     (let valBytes = textEncode cd s
      in Inr (bytes @ [1] @ [shr_byte (length valBytes) 8, shr_byte (length valBytes) 0] @ valBytes))"
| "addValueBytes cd bytes (VNumber n) =
     (let valBytes = numberToBytes cd n
      in Inr (bytes @ [2] @ [shr_byte (length valBytes) 8, shr_byte (length valBytes) 0] @ valBytes))"
| "addValueBytes cd bytes (VBoolean b) = Inr (bytes @ [3] @ [if b then 1 else 0])"
| "addValueBytes cd bytes (VArray vs) =
     (if length vs > 0xffff then Inl ArrayTooLarge
      else addValuesBytes cd (bytes @ [4] @ [shr_byte (length vs) 8, shr_byte (length vs) 0]) vs)"
| "addValueBytes cd bytes VOther = Inl InvalidValueType"
| "addValuesBytes cd bytes [] = Inr bytes"
| "addValuesBytes cd bytes (v # vs) =
     (case addValueBytes cd bytes v of
        Inl e \<Rightarrow> Inl e
      | Inr bytes' \<Rightarrow> addValuesBytes cd bytes' vs)"

fun addInfoEntries :: "codecs \<Rightarrow> nat list \<Rightarrow> (string \<times> info_value) list \<Rightarrow> header_error + nat list" where
  "addInfoEntries cd bytes [] = Inr bytes"
| "addInfoEntries cd bytes ((key, v) # rest) =
     (case addValueBytes cd (addNameBytes bytes key) v of
        Inl e \<Rightarrow> Inl e
      | Inr bytes' \<Rightarrow> addInfoEntries cd bytes' rest)"

definition addInfoBytes :: "codecs \<Rightarrow> nat list \<Rightarrow> (string \<times> info_value) list \<Rightarrow> header_error + nat list" where
  "addInfoBytes cd bytes obj = addInfoEntries cd (bytes @ [length obj]) obj"

definition DISK_BLOCK_SIZE :: nat where
  "DISK_BLOCK_SIZE = 4096"

text \<open>The loop \<^verbatim>\<open>while (header.length % DISK_BLOCK_SIZE !== 0) header.push(0)\<close>.\<close>

function align_header :: "nat list \<Rightarrow> nat list" where
  "align_header header =
     (if length header mod DISK_BLOCK_SIZE \<noteq> 0 then align_header (header @ [0]) else header)"
  by pat_completeness auto
termination
proof (relation "measure (\<lambda>header. (DISK_BLOCK_SIZE - length header mod DISK_BLOCK_SIZE) mod DISK_BLOCK_SIZE)")
  show "wf (measure (\<lambda>header. (DISK_BLOCK_SIZE - length header mod DISK_BLOCK_SIZE) mod DISK_BLOCK_SIZE))"
    by simp
next
  fix header :: "nat list"
  assume a: "length header mod DISK_BLOCK_SIZE \<noteq> 0"
  define r where "r = length header mod DISK_BLOCK_SIZE"
  have r: "0 < r" "r < 4096" using a by (simp_all add: r_def DISK_BLOCK_SIZE_def)
  have "length (header @ [0]) mod DISK_BLOCK_SIZE = Suc r mod 4096"
    by (simp add: r_def DISK_BLOCK_SIZE_def mod_Suc_eq)
  moreover have "(4096 - Suc r mod 4096) mod 4096 < (4096 - r) mod 4096"
  proof (cases "Suc r = 4096")
    case True
    then show ?thesis using r by simp
  next
    case False
    then have "Suc r mod 4096 = Suc r" using r by simp
    then show ?thesis using r by simp
  qed
  ultimately show "(header @ [0], header) \<in> measure (\<lambda>header. (DISK_BLOCK_SIZE - length header mod DISK_BLOCK_SIZE) mod DISK_BLOCK_SIZE)"
    by (simp add: r_def DISK_BLOCK_SIZE_def)
qed

declare align_header.simps [simp del]

record index_info =
  idx_type :: string
  idx_path :: string
  idx_key :: string
  includeKeys :: "string list"
  caseSensitive :: bool
  textLocale :: string
  tree_class :: info_value
  tree_version :: info_value

record header_result =
  written :: "nat list"
  headerLength :: nat
  treeRefIndex :: nat

definition signature :: "nat list" where
  "signature = [65, 67, 69, 66, 65, 83, 69, 73, 68, 88]"

definition set_uint32 :: "nat list \<Rightarrow> nat \<Rightarrow> nat \<Rightarrow> nat list" where
  "set_uint32 header pos n =
     header[pos := shr_byte n 24, pos + 1 := shr_byte n 16, pos + 2 := shr_byte n 8,
            pos + 3 := shr_byte n 0]"

definition buffer_from :: "nat list \<Rightarrow> nat list" where
  "buffer_from xs = map (\<lambda>x. x mod 256) xs"

definition writeIndexHeader ::
  "codecs \<Rightarrow> index_info \<Rightarrow> info_value \<Rightarrow> info_value \<Rightarrow> header_error + header_result" where
  "writeIndexHeader cd idx totalEntries totalValues =
     (let header = signature @ [1] @ [0, 0, 0, 0];
          indexInfo = [(''type'', VString (idx_type idx)),
                       (''version'', VNumber 1),
                       (''path'', VString (idx_path idx)),
                       (''key'', VString (idx_key idx)),
                       (''include'', VArray (map VString (includeKeys idx))),
                       (''cs'', VBoolean (caseSensitive idx)),
                       (''locale'', VString (textLocale idx))]
      in case addInfoBytes cd header indexInfo of
           Inl e \<Rightarrow> Inl e
         | Inr header1 \<Rightarrow>
             let header2 = addNameBytes (header1 @ [1]) ''default'';
                 treeRef = length header2;
                 header3 = header2 @ [0, 0, 0, 0] @ [0, 0, 0, 0];
                 extraTreeInfo = [(''class'', tree_class idx),
                                  (''version'', tree_version idx),
                                  (''entries'', totalEntries),
                                  (''values'', totalValues)]
             in case addInfoBytes cd header3 extraTreeInfo of
                  Inl e \<Rightarrow> Inl e
                | Inr header4 \<Rightarrow>
                    let header5 = align_header header4;
                        len = length header5;
                        header6 = set_uint32 header5 11 len;
                        header7 = set_uint32 header6 treeRef len
                    in Inr \<lparr>written = buffer_from header7, headerLength = len,
                            treeRefIndex = treeRef\<rparr>)"

text \<open>Reading a 4-byte big-endian unsigned integer at an offset, as a reader of the file does.\<close>

definition get_uint32 :: "nat list \<Rightarrow> nat \<Rightarrow> nat" where
  "get_uint32 bytes pos =
     ((bytes ! pos * 256 + bytes ! (pos + 1)) * 256 + bytes ! (pos + 2)) * 256 + bytes ! (pos + 3)"

text \<open>
  The layout of the header, field by field, for the theorem below: the four bytes of a
  big-endian number, and the two objects whose entries are written as \<^verbatim>\<open>info\<close>.
\<close>

definition uint32_bytes :: "nat \<Rightarrow> nat list" where
  "uint32_bytes n = [n div 2 ^ 24 mod 256, n div 2 ^ 16 mod 256, n div 2 ^ 8 mod 256, n mod 256]"

definition index_info_entries :: "index_info \<Rightarrow> (string \<times> info_value) list" where
  "index_info_entries idx =
     [(''type'', VString (idx_type idx)),
      (''version'', VNumber 1),
      (''path'', VString (idx_path idx)),
      (''key'', VString (idx_key idx)),
      (''include'', VArray (map VString (includeKeys idx))),
      (''cs'', VBoolean (caseSensitive idx)),
      (''locale'', VString (textLocale idx))]"

definition tree_info_entries ::
  "index_info \<Rightarrow> info_value \<Rightarrow> info_value \<Rightarrow> (string \<times> info_value) list" where
  "tree_info_entries idx totalEntries totalValues =
     [(''class'', tree_class idx),
      (''version'', tree_version idx),
      (''entries'', totalEntries),
      (''values'', totalValues)]"

lemma shr_byte_eq:
  assumes "k \<le> 24"
  shows "shr_byte n k = (n mod 2 ^ 32) div 2 ^ k mod 256"
proof -
  let ?w = "word_of_nat n :: 32 word"
  have m: "(0xff :: 32 word) = mask 8" by (simp add: mask_eq_exp_minus_1)
  have "signed_drop_bit k ?w AND mask 8 = drop_bit k ?w AND mask 8"
  proof (rule bit_word_eqI)
    fix i assume "i < LENGTH(32)"
    show "bit (signed_drop_bit k ?w AND mask 8) i = bit (drop_bit k ?w AND mask 8) i"
      using assms by (auto simp: bit_simps)
  qed
  then have "shr_byte n k = unat (take_bit 8 (drop_bit k ?w))"
    unfolding shr_byte_def m by (simp only: take_bit_eq_mask)
  also have "\<dots> = take_bit 8 (drop_bit k (take_bit 32 n))"
    by (simp only: unsigned_take_bit_eq unsigned_drop_bit_eq unsigned_of_nat len_bit0 len_num1)
       simp
  also have "\<dots> = (n mod 2 ^ 32) div 2 ^ k mod 256"
    by (simp add: take_bit_eq_mod drop_bit_eq_div)
  finally show ?thesis .
qed

lemma shr_byte_lt: "k \<le> 24 \<Longrightarrow> shr_byte n k < 256"
  by (simp add: shr_byte_eq)

lemma be32_roundtrip:
  assumes "n < 2 ^ 32"
  shows "((shr_byte n 24 * 256 + shr_byte n 16) * 256 + shr_byte n 8) * 256 + shr_byte n 0 = n"
proof -
  define a where "a = n div 256"
  define b where "b = a div 256"
  define c where "c = b div 256"
  have n: "n mod 2 ^ 32 = n" using assms by simp
  have d8: "n div 2 ^ 8 = a" by (simp add: a_def)
  have d16: "n div 2 ^ 16 = b"
    unfolding b_def a_def by (simp add: div_mult2_eq)
  have d24: "n div 2 ^ 24 = c"
    unfolding c_def b_def a_def by (simp add: div_mult2_eq)
  have "c < 256" using assms d24 [symmetric] by (simp add: less_mult_imp_div_less)
  then have c: "c mod 256 = c" by simp
  have e1: "n = a * 256 + n mod 256" by (simp add: a_def)
  have e2: "a = b * 256 + a mod 256" by (simp add: b_def)
  have e3: "b = c * 256 + b mod 256" by (simp add: c_def)
  have "((c mod 256 * 256 + b mod 256) * 256 + a mod 256) * 256 + n mod 256 = n"
    unfolding c using e1 e2 e3 by presburger
  then show ?thesis
    by (simp only: shr_byte_eq [of 24] shr_byte_eq [of 16] shr_byte_eq [of 8] shr_byte_eq [of 0] n d8 d16 d24)
       simp
qed


lemma addValueBytes_extends:
  "addValueBytes cd bytes v = Inr bytes' \<Longrightarrow> \<exists>ext. bytes' = bytes @ ext"
  "addValuesBytes cd bytes vs = Inr bytes' \<Longrightarrow> \<exists>ext. bytes' = bytes @ ext"
proof (induction cd bytes v and cd bytes vs arbitrary: bytes' and bytes'
    rule: addValueBytes_addValuesBytes.induct)
  case (5 cd bytes vs)
  then show ?case by (fastforce split: if_splits)
next
  case (8 cd bytes v vs)
  then show ?case by (fastforce split: sum.splits)
qed (auto simp: Let_def)

lemma addInfoEntries_extends:
  "addInfoEntries cd bytes obj = Inr bytes' \<Longrightarrow> \<exists>ext. bytes' = bytes @ ext"
proof (induction obj arbitrary: bytes)
  case Nil
  then show ?case by simp
next
  case (Cons kv obj)
  obtain k v where kv: "kv = (k, v)" by (cases kv)
  from Cons.prems kv obtain b1 where
    b1: "addValueBytes cd (addNameBytes bytes k) v = Inr b1" and
    rest: "addInfoEntries cd b1 obj = Inr bytes'"
    by (auto split: sum.splits)
  from addValueBytes_extends(1) [OF b1] obtain e1 where "b1 = addNameBytes bytes k @ e1" ..
  moreover from Cons.IH [OF rest] obtain e2 where "bytes' = b1 @ e2" ..
  ultimately show ?case by (simp add: addNameBytes_def)
qed

lemma addInfoBytes_extends:
  "addInfoBytes cd bytes obj = Inr bytes' \<Longrightarrow> \<exists>ext. bytes' = bytes @ ext"
  unfolding addInfoBytes_def by (drule addInfoEntries_extends) auto

lemma align_header_eq:
  "align_header header =
     header @ replicate ((DISK_BLOCK_SIZE - length header mod DISK_BLOCK_SIZE) mod DISK_BLOCK_SIZE) 0"
proof (induction header rule: align_header.induct)
  case (1 header)
  show ?case
  proof (cases "length header mod DISK_BLOCK_SIZE = 0")
    case True
    then show ?thesis by (subst align_header.simps) (simp add: DISK_BLOCK_SIZE_def)
  next
    case False
    define r where "r = length header mod DISK_BLOCK_SIZE"
    have r: "0 < r" "r < 4096" using False by (simp_all add: r_def DISK_BLOCK_SIZE_def)
    have sr: "length (header @ [0]) mod DISK_BLOCK_SIZE = Suc r mod 4096"
      by (simp add: r_def DISK_BLOCK_SIZE_def mod_Suc_eq)
    have "align_header header = align_header (header @ [0])"
      using False by (subst align_header.simps) simp
    also have "\<dots> = (header @ [0]) @ replicate ((4096 - Suc r mod 4096) mod 4096) 0"
      using "1.IH" [OF False] sr by (simp add: DISK_BLOCK_SIZE_def)
    also have "\<dots> = header @ replicate (Suc ((4096 - Suc r mod 4096) mod 4096)) 0"
      by (simp add: replicate_app_Cons_same)
    also have "Suc ((4096 - Suc r mod 4096) mod 4096) = (4096 - r) mod 4096"
    proof (cases "Suc r = 4096")
      case True
      then show ?thesis by simp
    next
      case False
      then have "Suc r mod 4096 = Suc r" using r by simp
      then show ?thesis using r False by simp
    qed
    finally show ?thesis by (simp add: r_def DISK_BLOCK_SIZE_def)
  qed
qed

lemma align_header_dvd: "DISK_BLOCK_SIZE dvd length (align_header header)"
proof -
  define n where "n = length header"
  define r where "r = n mod 4096"
  have "(n + (4096 - r) mod 4096) mod 4096 = 0"
  proof (cases "r = 0")
    case True
    then show ?thesis by (simp add: r_def)
  next
    case False
    have r: "r < 4096" by (simp add: r_def)
    have "n = n div 4096 * 4096 + r" by (simp add: r_def)
    then have "n + (4096 - r) = (n div 4096 + 1) * 4096" using r by simp
    moreover have "(4096 - r) mod 4096 = 4096 - r" using False r by simp
    ultimately show ?thesis by (metis mod_mult_self2_is_0)
  qed
  then have z: "(n + (4096 - n mod 4096) mod 4096) mod 4096 = 0"
    unfolding r_def .
  have l: "length (align_header header)
      = n + (DISK_BLOCK_SIZE - n mod DISK_BLOCK_SIZE) mod DISK_BLOCK_SIZE"
    by (simp only: align_header_eq n_def length_append length_replicate)
  show ?thesis
    unfolding l dvd_eq_mod_eq_0 DISK_BLOCK_SIZE_def by (rule z)
qed

lemma length_set_uint32 [simp]: "length (set_uint32 header pos n) = length header"
  by (simp add: set_uint32_def)

lemma get_set_uint32:
  assumes "pos + 4 \<le> length header" "n < 2 ^ 32"
  shows "get_uint32 (buffer_from (set_uint32 header pos n)) pos = n"
proof -
  have "buffer_from (set_uint32 header pos n) ! pos = shr_byte n 24"
    "buffer_from (set_uint32 header pos n) ! (pos + 1) = shr_byte n 16"
    "buffer_from (set_uint32 header pos n) ! (pos + 2) = shr_byte n 8"
    "buffer_from (set_uint32 header pos n) ! (pos + 3) = shr_byte n 0"
    using assms(1) by (simp_all add: buffer_from_def set_uint32_def shr_byte_lt)
  then show ?thesis
    using be32_roundtrip [OF assms(2)] by (simp only: get_uint32_def)
qed

lemma nth_set_uint32_other:
  "i < pos \<or> pos + 4 \<le> i \<Longrightarrow> set_uint32 header pos n ! i = header ! i"
  by (auto simp: set_uint32_def)

lemma get_uint32_cong:
  "(\<And>i. pos \<le> i \<Longrightarrow> i < pos + 4 \<Longrightarrow> xs ! i = ys ! i) \<Longrightarrow> get_uint32 xs pos = get_uint32 ys pos"
  by (simp add: get_uint32_def)


text \<open>
  The bytes that \<^verbatim>\<open>addInfoBytes\<close> pushes do not depend on the bytes that are already there.
\<close>

lemma addValueBytes_prefix:
  "addValueBytes cd (a @ b) v = map_sum id ((@) a) (addValueBytes cd b v)"
  "addValuesBytes cd (a @ b) vs = map_sum id ((@) a) (addValuesBytes cd b vs)"
proof (induction cd b v and cd b vs arbitrary: a and a
    rule: addValueBytes_addValuesBytes.induct)
  case (5 cd bytes vs)
  show ?case
  proof (cases "length vs > 0xffff")
    case True
    then show ?thesis by simp
  next
    case False
    from 5 [OF False, of a] show ?thesis using False by simp
  qed
next
  case (8 cd bytes v vs)
  show ?case
  proof (cases "addValueBytes cd bytes v")
    case (Inl e)
    then show ?thesis using "8.IH"(1) [of a] by simp
  next
    case (Inr x)
    then show ?thesis using "8.IH"(1) [of a] "8.IH"(2) [OF Inr, of a] by simp
  qed
qed (simp_all add: Let_def)

lemma addInfoEntries_prefix:
  "addInfoEntries cd (a @ b) obj = map_sum id ((@) a) (addInfoEntries cd b obj)"
proof (induction obj arbitrary: b)
  case Nil
  then show ?case by simp
next
  case (Cons kv obj)
  obtain k v where kv: "kv = (k, v)" by (cases kv)
  have n: "addNameBytes (a @ b) k = a @ addNameBytes b k" by (simp add: addNameBytes_def)
  show ?case
  proof (cases "addValueBytes cd (addNameBytes b k) v")
    case (Inl e)
    then show ?thesis
      using addValueBytes_prefix(1) [of cd a "addNameBytes b k" v] by (simp add: kv n)
  next
    case (Inr x)
    then show ?thesis
      using addValueBytes_prefix(1) [of cd a "addNameBytes b k" v] Cons.IH [of x]
      by (simp add: kv n)
  qed
qed

lemma addInfoBytes_prefix:
  "addInfoBytes cd bytes obj = map_sum id ((@) bytes) (addInfoBytes cd [] obj)"
  using addInfoEntries_prefix [of cd bytes "[length obj]" obj] by (simp add: addInfoBytes_def)

lemma addInfoBytes_Inr:
  assumes "addInfoBytes cd bytes obj = Inr bytes'"
  shows "\<exists>ext. addInfoBytes cd [] obj = Inr ext \<and> bytes' = bytes @ ext"
  using assms addInfoBytes_prefix [of cd bytes obj]
  by (cases "addInfoBytes cd [] obj") simp_all

lemma set_uint32_append:
  "set_uint32 (a @ w # x # y # z # b) (length a) n =
     a @ [shr_byte n 24, shr_byte n 16, shr_byte n 8, shr_byte n 0] @ b"
  by (simp add: set_uint32_def list_update_append)

lemma shr_bytes_uint32:
  assumes "n < 2 ^ 32"
  shows "[shr_byte n 24, shr_byte n 16, shr_byte n 8, shr_byte n 0] = uint32_bytes n"
  using assms by (simp add: shr_byte_eq uint32_bytes_def)

lemma align_header_pad:
  "\<exists>pad < DISK_BLOCK_SIZE. align_header header = header @ replicate pad 0"
proof -
  have "(DISK_BLOCK_SIZE - length header mod DISK_BLOCK_SIZE) mod DISK_BLOCK_SIZE < DISK_BLOCK_SIZE"
    by (simp add: DISK_BLOCK_SIZE_def)
  then show ?thesis using align_header_eq [of header] by blast
qed



text \<open>
  The header as a whole: every byte of it, in the order of the layout.
\<close>

lemma header_layout:
  assumes ok: "writeIndexHeader cd idx totalEntries totalValues = Inr r"
    and len: "length (written r) < 2 ^ 32"
  shows "\<exists>info treeInfo pad.
           addInfoBytes cd [] (index_info_entries idx) = Inr info
         \<and> addInfoBytes cd [] (tree_info_entries idx totalEntries totalValues) = Inr treeInfo
         \<and> pad < DISK_BLOCK_SIZE
         \<and> written r =
             buffer_from
               (map charCodeAt ''ACEBASEIDX'' @ [1] @ uint32_bytes (length (written r))
                @ info @ [1] @ [7] @ map charCodeAt ''default''
                @ uint32_bytes (length (written r)) @ [0, 0, 0, 0]
                @ treeInfo @ replicate pad 0)
         \<and> treeRefIndex r = 10 + 1 + 4 + length info + 1 + 1 + 7
         \<and> take 10 (written r) = map charCodeAt ''ACEBASEIDX''
         \<and> written r ! 10 = 1
         \<and> DISK_BLOCK_SIZE dvd length (written r)
         \<and> get_uint32 (written r) 11 = length (written r)
         \<and> get_uint32 (written r) (treeRefIndex r) = length (written r)
         \<and> headerLength r = length (written r)"
proof -
  define h0 where "h0 = signature @ [1] @ [0, 0, 0, 0]"
  define sg where "sg = signature @ [1]"
  have lsg: "length sg = 11" by (simp add: sg_def signature_def)
  have sg_eq: "sg = map charCodeAt ''ACEBASEIDX'' @ [1]"
    by (simp add: sg_def signature_def charCodeAt_def)
  have h0_sg: "h0 = sg @ [0, 0, 0, 0]" by (simp add: h0_def sg_def)
  from ok obtain header1 header4 where
    h1: "addInfoBytes cd h0 (index_info_entries idx) = Inr header1" and
    h4: "addInfoBytes cd (addNameBytes (header1 @ [1]) ''default'' @ [0, 0, 0, 0] @ [0, 0, 0, 0])
           (tree_info_entries idx totalEntries totalValues) = Inr header4" and
    r: "r = \<lparr>written = buffer_from
               (set_uint32 (set_uint32 (align_header header4) 11 (length (align_header header4)))
                  (length (addNameBytes (header1 @ [1]) ''default''))
                  (length (align_header header4))),
             headerLength = length (align_header header4),
             treeRefIndex = length (addNameBytes (header1 @ [1]) ''default'')\<rparr>"
    unfolding writeIndexHeader_def Let_def h0_def index_info_entries_def tree_info_entries_def
    by (auto split: sum.splits)
  from addInfoBytes_Inr [OF h1] obtain info where
    info: "addInfoBytes cd [] (index_info_entries idx) = Inr info" and e1: "header1 = h0 @ info"
    by blast
  from addInfoBytes_Inr [OF h4] obtain treeInfo where
    tinfo: "addInfoBytes cd [] (tree_info_entries idx totalEntries totalValues) = Inr treeInfo"
    and e4: "header4 = (addNameBytes (header1 @ [1]) ''default'' @ [0, 0, 0, 0] @ [0, 0, 0, 0])
               @ treeInfo"
    by blast
  from align_header_pad [of header4] obtain pad where
    pad: "pad < DISK_BLOCK_SIZE" and e5: "align_header header4 = header4 @ replicate pad 0"
    by blast
  define n where "n = length (align_header header4)"
  define mid where "mid = info @ [1] @ [7] @ map charCodeAt ''default''"
  define tl where "tl = [0, 0, 0, 0] @ treeInfo @ replicate pad (0 :: nat)"
  define be where "be = [shr_byte n 24, shr_byte n 16, shr_byte n 8, shr_byte n 0]"
  have lbe: "length be = 4" by (simp add: be_def)
  have name: "addNameBytes (header1 @ [1]) ''default'' = sg @ [0, 0, 0, 0] @ mid"
    by (simp add: addNameBytes_def e1 h0_sg mid_def)
  have treeRef: "length (addNameBytes (header1 @ [1]) ''default'') = length (sg @ be @ mid)"
    unfolding name by (simp add: be_def)
  have h4': "header4 = sg @ 0 # 0 # 0 # 0 # (mid @ [0, 0, 0, 0] @ [0, 0, 0, 0] @ treeInfo)"
    unfolding e4 name by simp
  have h5: "align_header header4 = sg @ 0 # 0 # 0 # 0 # (mid @ [0, 0, 0, 0] @ tl)"
    unfolding e5 by (simp add: h4' tl_def)
  have s1: "set_uint32 (align_header header4) 11 n = sg @ be @ (mid @ [0, 0, 0, 0] @ tl)"
    unfolding h5 lsg [symmetric] be_def by (rule set_uint32_append)
  have s1': "set_uint32 (align_header header4) 11 n = (sg @ be @ mid) @ 0 # 0 # 0 # 0 # tl"
    by (simp add: s1)
  have s2: "set_uint32 (set_uint32 (align_header header4) 11 n)
              (length (addNameBytes (header1 @ [1]) ''default'')) n
            = (sg @ be @ mid) @ be @ tl"
    unfolding s1' treeRef be_def by (rule set_uint32_append)
  have w: "written r = buffer_from (sg @ be @ mid @ be @ tl)"
    unfolding r n_def [symmetric] using s2 by simp
  have hl: "headerLength r = n"
    unfolding r n_def [symmetric] by simp
  have tr: "treeRefIndex r = length (sg @ be @ mid)"
    unfolding r treeRef by simp
  have lw: "length (written r) = n"
    unfolding r n_def by (simp add: buffer_from_def)
  have n32: "n < 2 ^ 32" using len lw by simp
  have be_eq: "be = uint32_bytes n" unfolding be_def using n32 by (rule shr_bytes_uint32)
  have be_small: "\<forall>x \<in> set be. x < 256" by (simp add: be_eq uint32_bytes_def)
  have layout: "written r =
      buffer_from (map charCodeAt ''ACEBASEIDX'' @ [1] @ uint32_bytes (length (written r))
        @ info @ [1] @ [7] @ map charCodeAt ''default''
        @ uint32_bytes (length (written r)) @ [0, 0, 0, 0] @ treeInfo @ replicate pad 0)"
    unfolding lw be_eq [symmetric] by (simp add: w sg_eq mid_def tl_def)
  have trv: "treeRefIndex r = 10 + 1 + 4 + length info + 1 + 1 + 7"
    by (simp add: tr lsg lbe mid_def)
  have wsg: "written r = sg @ buffer_from (be @ mid @ be @ tl)"
    by (simp add: w buffer_from_def sg_def signature_def)
  have c1: "take 10 (written r) = map charCodeAt ''ACEBASEIDX''"
    by (simp add: wsg sg_eq)
  have c2: "written r ! 10 = 1"
    by (simp add: wsg sg_eq nth_append)
  have c3: "DISK_BLOCK_SIZE dvd length (written r)"
    unfolding lw n_def by (rule align_header_dvd)
  have be_val: "((be ! 0 * 256 + be ! 1) * 256 + be ! 2) * 256 + be ! 3 = n"
    using be32_roundtrip [OF n32] by (simp add: be_def)
  have bb: "buffer_from be = be"
    using be_small by (simp add: buffer_from_def map_idI)
  have get: "get_uint32 (buffer_from (a @ be @ b)) (length a) = n" for a b
  proof -
    have "buffer_from (a @ be @ b) ! (length a + i) = be ! i" if "i < 4" for i
    proof -
      have "buffer_from (a @ be @ b) = buffer_from a @ be @ buffer_from b"
        using bb by (simp add: buffer_from_def)
      moreover have "length (buffer_from a) = length a" by (simp add: buffer_from_def)
      ultimately show ?thesis using that lbe by (simp add: nth_append)
    qed
    from this [of 0] this [of 1] this [of 2] this [of 3] show ?thesis
      using be_val by (simp add: get_uint32_def)
  qed
  have c4: "get_uint32 (written r) 11 = n"
    using get [of sg "mid @ be @ tl"] by (simp add: w lsg)
  have c5: "get_uint32 (written r) (treeRefIndex r) = n"
    using get [of "sg @ be @ mid" tl] by (simp add: w tr)
  show ?thesis
    using info tinfo pad layout trv c1 c2 c3 c4 [folded lw] c5 [folded lw] hl [folded lw]
    by blast
qed


text \<open>
  C7. Whenever \<open>writeIndexHeader\<close> produces a header, the bytes written are, in this order:
  the signature \<open>ACEBASEIDX\<close>, the layout version 1, the length of the whole header as a
  big-endian 32-bit number (at offset 11), the info of the index, the number of trees 1,
  the name \<open>default\<close> with its length, the \<open>file_index\<close> of that tree, which is again the
  length of the whole header, four bytes for its \<open>byte_length\<close>, the info of the tree, and
  fewer than 4096 zero bytes. \<open>treeRefIndex\<close> is the offset of the \<open>file_index\<close> field in this
  layout. The length is a multiple of 4096 and is the \<open>length\<close> the function returns, so the
  tree starts at the aligned end of the header. A JavaScript array is shorter than \<open>2 ^ 32\<close>
  elements, which is the second premise.
\<close>

theorem index_header_layout:
  assumes ok: "writeIndexHeader cd idx totalEntries totalValues = Inr r"
    and len: "length (written r) < 2 ^ 32"
  shows "\<exists>info treeInfo pad.
           addInfoBytes cd [] (index_info_entries idx) = Inr info
         \<and> addInfoBytes cd [] (tree_info_entries idx totalEntries totalValues) = Inr treeInfo
         \<and> pad < DISK_BLOCK_SIZE
         \<and> written r =
             buffer_from
               (map charCodeAt ''ACEBASEIDX'' @ [1] @ uint32_bytes (length (written r))
                @ info @ [1] @ [7] @ map charCodeAt ''default''
                @ uint32_bytes (length (written r)) @ [0, 0, 0, 0]
                @ treeInfo @ replicate pad 0)
         \<and> treeRefIndex r = 10 + 1 + 4 + length info + 1 + 1 + 7
         \<and> take 10 (written r) = map charCodeAt ''ACEBASEIDX''
         \<and> written r ! 10 = 1
         \<and> DISK_BLOCK_SIZE dvd length (written r)
         \<and> get_uint32 (written r) 11 = length (written r)
         \<and> get_uint32 (written r) (treeRefIndex r) = length (written r)
         \<and> headerLength r = length (written r)"
  using ok len by (rule header_layout)

definition example_codecs :: codecs where
  "example_codecs = \<lparr>numberToBytes = (\<lambda>n. [0, 0, 0, 0, 0, 0, 0, nat n]), textEncode = map of_char\<rparr>"

definition example_index :: index_info where
  "example_index = \<lparr>idx_type = ''normal'', idx_path = ''songs'', idx_key = ''year'',
     includeKeys = [''title''], caseSensitive = False, textLocale = ''en'',
     tree_class = VString ''BPlusTree'', tree_version = VNumber 1\<rparr>"

lemma example_header_written:
  "\<exists>r. writeIndexHeader example_codecs example_index (VNumber 3) (VNumber 3) = Inr r
       \<and> length (written r) = 4096"
  by (simp add: writeIndexHeader_def addInfoBytes_def addNameBytes_def Let_def buffer_from_def
      align_header_eq DISK_BLOCK_SIZE_def example_codecs_def example_index_def signature_def)

text \<open>
  In the example the info of the index takes 93 bytes: the number of trees is at offset 109,
  the name of the tree from 110 on, and the \<open>file_index\<close> field at 118 holds 4096.
\<close>

lemma example_info:
  "addInfoBytes example_codecs [] (index_info_entries example_index) =
     Inr [7, 4, 116, 121, 112, 101, 1, 0, 6, 110, 111, 114, 109, 97, 108,
          7, 118, 101, 114, 115, 105, 111, 110, 2, 0, 8, 0, 0, 0, 0, 0, 0, 0, 1,
          4, 112, 97, 116, 104, 1, 0, 5, 115, 111, 110, 103, 115,
          3, 107, 101, 121, 1, 0, 4, 121, 101, 97, 114,
          7, 105, 110, 99, 108, 117, 100, 101, 4, 0, 1, 1, 0, 5, 116, 105, 116, 108, 101,
          2, 99, 115, 3, 0,
          6, 108, 111, 99, 97, 108, 101, 1, 0, 2, 101, 110]"
  by (simp add: addInfoBytes_def addNameBytes_def Let_def index_info_entries_def
      example_codecs_def example_index_def shr_byte_eq charCodeAt_def)

lemma example_header_tree_field:
  "\<exists>r. writeIndexHeader example_codecs example_index (VNumber 3) (VNumber 3) = Inr r
       \<and> treeRefIndex r = 118
       \<and> take 17 (drop 109 (written r))
           = [1, 7, 100, 101, 102, 97, 117, 108, 116, 0, 0, 16, 0, 0, 0, 0, 0]"
proof -
  from example_header_written obtain r where
    r: "writeIndexHeader example_codecs example_index (VNumber 3) (VNumber 3) = Inr r"
    and l: "length (written r) = 4096"
    by blast
  have "length (written r) < 2 ^ 32" unfolding l by simp
  from header_layout [OF r this] obtain treeInfo pad where
    w: "written r =
          buffer_from
            (map charCodeAt ''ACEBASEIDX'' @ [1] @ uint32_bytes 4096
             @ [7, 4, 116, 121, 112, 101, 1, 0, 6, 110, 111, 114, 109, 97, 108,
                7, 118, 101, 114, 115, 105, 111, 110, 2, 0, 8, 0, 0, 0, 0, 0, 0, 0, 1,
                4, 112, 97, 116, 104, 1, 0, 5, 115, 111, 110, 103, 115,
                3, 107, 101, 121, 1, 0, 4, 121, 101, 97, 114,
                7, 105, 110, 99, 108, 117, 100, 101, 4, 0, 1, 1, 0, 5, 116, 105, 116, 108, 101,
                2, 99, 115, 3, 0,
                6, 108, 111, 99, 97, 108, 101, 1, 0, 2, 101, 110]
             @ [1] @ [7] @ map charCodeAt ''default''
             @ uint32_bytes 4096 @ [0, 0, 0, 0] @ treeInfo @ replicate pad 0)"
    and t: "treeRefIndex r = 118"
    unfolding l example_info by auto
  have "take 17 (drop 109 (written r))
      = [1, 7, 100, 101, 102, 97, 117, 108, 116, 0, 0, 16, 0, 0, 0, 0, 0]"
    unfolding w by (simp add: buffer_from_def uint32_bytes_def charCodeAt_def)
  then show ?thesis using r t by blast
qed

theorem index_header_layout_witness:
  "\<exists>r. writeIndexHeader example_codecs example_index (VNumber 3) (VNumber 3) = Inr r
       \<and> length (written r) = 4096
       \<and> (\<exists>info treeInfo pad.
             addInfoBytes example_codecs [] (index_info_entries example_index) = Inr info
           \<and> addInfoBytes example_codecs []
                (tree_info_entries example_index (VNumber 3) (VNumber 3)) = Inr treeInfo
           \<and> pad < DISK_BLOCK_SIZE
           \<and> written r =
               buffer_from
                 (map charCodeAt ''ACEBASEIDX'' @ [1] @ uint32_bytes 4096
                  @ info @ [1] @ [7] @ map charCodeAt ''default''
                  @ uint32_bytes 4096 @ [0, 0, 0, 0]
                  @ treeInfo @ replicate pad 0)
           \<and> treeRefIndex r = 10 + 1 + 4 + length info + 1 + 1 + 7
           \<and> get_uint32 (written r) 11 = 4096
           \<and> get_uint32 (written r) (treeRefIndex r) = 4096
           \<and> headerLength r = 4096)"
proof -
  from example_header_written obtain r where
    r: "writeIndexHeader example_codecs example_index (VNumber 3) (VNumber 3) = Inr r"
    and l: "length (written r) = 4096"
    by blast
  have "length (written r) < 2 ^ 32" unfolding l by simp
  from index_header_layout [OF r this] show ?thesis
    unfolding l using r l by blast
qed

section \<open>Build pipeline, stage A: the batch size\<close>

text \<open>
  Source: \<^verbatim>\<open>src/data-index.js\<close>, \<^verbatim>\<open>DataIndex.build\<close>:
  \<^verbatim>\<open>
  const hasWildcards = path.indexOf('*') >= 0;
  const nrOfWildcards = hasWildcards ? /\*/g.exec(this.path).length : 0;
  ...
  const maxBatchSize = Math.round(Math.pow(500, Math.pow(0.5, nrOfWildcards)));
  \<close>
  \<^verbatim>\<open>RegExp.prototype.exec\<close> returns the match array of the first match: the matched text
  followed by one element per capture group (here none), or \<^verbatim>\<open>null\<close> when nothing matches.
  \<^verbatim>\<open>Math.pow\<close> is taken over the reals and \<^verbatim>\<open>Math.round\<close> is \<open>round\<close> (half up); the values
  involved are far from a rounding boundary.
\<close>

definition exec_star :: "string \<Rightarrow> string list option" where
  "exec_star path = (if CHR ''*'' \<in> set path then Some [''*''] else None)"

datatype build_error = TypeError

definition nrOfWildcards :: "string \<Rightarrow> build_error + nat" where
  "nrOfWildcards path =
     (let hasWildcards = CHR ''*'' \<in> set path
      in if hasWildcards
         then (case exec_star path of None \<Rightarrow> Inl TypeError | Some m \<Rightarrow> Inr (length m))
         else Inr 0)"

definition batch_size_for :: "nat \<Rightarrow> int" where
  "batch_size_for n = round ((500 :: real) powr ((1 / 2) ^ n))"

definition maxBatchSize :: "string \<Rightarrow> build_error + int" where
  "maxBatchSize path =
     (case nrOfWildcards path of Inl e \<Rightarrow> Inl e | Inr n \<Rightarrow> Inr (batch_size_for n))"

text \<open>The number of \<open>*\<close> wildcards of an index path, which the claim calls \<open>w\<close>.\<close>

definition count_wildcards :: "string \<Rightarrow> nat" where
  "count_wildcards path = length (filter (\<lambda>c. c = CHR ''*'') path)"

lemma nrOfWildcards_le_1:
  "nrOfWildcards path = Inr (if CHR ''*'' \<in> set path then 1 else 0)"
  by (simp add: nrOfWildcards_def exec_star_def)

lemma batch_size_0: "batch_size_for 0 = 500"
  by (simp add: batch_size_for_def)

lemma batch_size_1: "batch_size_for 1 = 22"
proof -
  have "(500 :: real) powr (1 / 2) = sqrt 500"
    by (simp add: powr_half_sqrt)
  moreover have "sqrt 500 < 45 / 2"
    by (rule real_less_lsqrt) (simp_all add: power2_eq_square)
  moreover have "43 / 2 \<le> sqrt 500"
    by (rule real_le_rsqrt) (simp add: power2_eq_square)
  ultimately show ?thesis
    unfolding batch_size_for_def by (intro round_unique) simp_all
qed

lemma batch_size_2: "batch_size_for 2 = 5"
proof -
  have "(500 :: real) powr ((1 / 2) ^ 2) = (500 powr (1 / 2)) powr (1 / 2)"
    by (simp add: powr_powr power2_eq_square)
  also have "\<dots> = sqrt (sqrt 500)"
    by (simp add: powr_half_sqrt)
  finally have e: "(500 :: real) powr ((1 / 2) ^ 2) = sqrt (sqrt 500)" .
  have "sqrt 500 < (11 / 2)\<^sup>2"
    by (rule real_less_lsqrt) (simp_all add: power2_eq_square)
  then have hi: "sqrt (sqrt 500) < 11 / 2"
    by (rule real_less_lsqrt [rotated]) simp
  have "(9 / 2)\<^sup>2 \<le> sqrt 500"
    by (rule real_le_rsqrt) (simp add: power2_eq_square)
  then have lo: "9 / 2 \<le> sqrt (sqrt 500)"
    by (rule real_le_rsqrt)
  show ?thesis
    unfolding batch_size_for_def e using lo hi by (intro round_unique) simp_all
qed

text \<open>
  C5. The claim says the batch size is \<open>round (500 ^ (0.5 ^ w))\<close> for \<open>w\<close> wildcards, so 5
  for two wildcards. The code computes 22 for every path with at least one wildcard: the
  length of the match array is 1 whatever the number of \<open>*\<close>.
\<close>

theorem batch_size_two_wildcards:
  "count_wildcards ''users/*/posts/*/comments'' = 2
   \<and> maxBatchSize ''users/*/posts/*/comments'' = Inr 22
   \<and> batch_size_for (count_wildcards ''users/*/posts/*/comments'') = 5"
proof -
  have c: "count_wildcards ''users/*/posts/*/comments'' = 2"
    by (simp add: count_wildcards_def)
  have "nrOfWildcards ''users/*/posts/*/comments'' = Inr 1"
    by (simp add: nrOfWildcards_le_1)
  then have "maxBatchSize ''users/*/posts/*/comments'' = Inr 22"
    using batch_size_1 by (simp add: maxBatchSize_def)
  then show ?thesis using c batch_size_2 by simp
qed

lemma maxBatchSize_values:
  "maxBatchSize path = Inr (if CHR ''*'' \<in> set path then 22 else 500)"
  using batch_size_0 batch_size_1 by (simp add: maxBatchSize_def nrOfWildcards_le_1)

section \<open>Build pipeline, stage B: one batch\<close>

text \<open>
  Source: \<^verbatim>\<open>src/data-index.js\<close>, \<^verbatim>\<open>readNext\<close>, \<^verbatim>\<open>flagProcessed\<close> and \<^verbatim>\<open>nextBatch\<close> /
  \<^verbatim>\<open>nextEntry\<close> inside \<^verbatim>\<open>DataIndex.build\<close>. The build file is the list of its records, each
  with its mutable \<^verbatim>\<open>processed\<close> flag, its key and its value bytes; the reader position is
  an index into that list. \<open>nextEntry\<close> runs from the reader position over the rest of the
  file: \<^verbatim>\<open>readNext\<close> skips a flagged record, and the end of the file ends the batch. It
  returns the \<^verbatim>\<open>Map\<close> of the batch, \<^verbatim>\<open>processedValues\<close>, the rest of the file with the new
  flags, and \<^verbatim>\<open>nextBatchStartEntry\<close> (the index of the record the next batch starts with;
  \<^verbatim>\<open>more\<close> is true exactly when there is one).
\<close>

record ('k, 'v) build_record =
  processed :: bool
  rec_key :: 'k
  rec_value :: 'v

definition maxValues :: nat where
  "maxValues = 100000"

definition flagProcessed :: "('k, 'v) build_record \<Rightarrow> ('k, 'v) build_record" where
  "flagProcessed r = r\<lparr>processed := True\<rparr>"

fun nextEntry ::
  "nat \<Rightarrow> ('k \<rightharpoonup> 'v list) \<Rightarrow> nat \<Rightarrow> nat \<Rightarrow> ('k, 'v) build_record list
     \<Rightarrow> ('k \<rightharpoonup> 'v list) \<times> nat \<times> ('k, 'v) build_record list \<times> nat option" where
  "nextEntry cap m processedValues index [] = (m, processedValues, [], None)"
| "nextEntry cap m processedValues index (r # rest) =
     (if processed r then
        (let (m', n', rest', start) = nextEntry cap m processedValues (index + 1) rest
         in (m', n', r # rest', start))
      else
        (let processedValues' = processedValues + 1
         in case m (rec_key r) of
              Some vals \<Rightarrow>
                (let (m', n', rest', start) =
                       nextEntry cap (m(rec_key r \<mapsto> vals @ [rec_value r])) processedValues'
                         (index + 1) rest
                 in (m', n', flagProcessed r # rest', start))
            | None \<Rightarrow>
                if processedValues' < cap then
                  (let (m', n', rest', start) =
                         nextEntry cap (m(rec_key r \<mapsto> [rec_value r])) processedValues'
                           (index + 1) rest
                   in (m', n', flagProcessed r # rest', start))
                else (m, processedValues', r # rest, Some index)))"

text \<open>
  One batch, as \<^verbatim>\<open>nextBatch\<close> starts it: an empty \<^verbatim>\<open>Map\<close>, \<^verbatim>\<open>processedValues = 0\<close>, the
  reader at \<open>start\<close> (the record the previous batch deferred, or the beginning).
\<close>

definition nextBatch ::
  "nat \<Rightarrow> ('k, 'v) build_record list
     \<Rightarrow> ('k \<rightharpoonup> 'v list) \<times> nat \<times> ('k, 'v) build_record list \<times> nat option" where
  "nextBatch start file =
     (let (m, n, rest, next_start) = nextEntry maxValues Map.empty 0 start (drop start file)
      in (m, n, take start file @ rest, next_start))"

text \<open>The values of the not yet processed records of key \<open>k\<close>, in file order.\<close>

definition pending_values :: "'k \<Rightarrow> ('k, 'v) build_record list \<Rightarrow> 'v list" where
  "pending_values k rs = map rec_value (filter (\<lambda>r. \<not> processed r \<and> rec_key r = k) rs)"

definition merged :: "'v list option \<Rightarrow> 'v list \<Rightarrow> 'v list option" where
  "merged old new =
     (case old of
        None \<Rightarrow> (if new = [] then None else Some new)
      | Some vals \<Rightarrow> Some (vals @ new))"

lemma merged_simps [simp]:
  "merged old [] = old"
  "merged (Some vals) new = Some (vals @ new)"
  "merged None (v # vs) = Some (v # vs)"
  by (simp_all add: merged_def split: option.splits)

lemma pending_values_simps [simp]:
  "pending_values k [] = []"
  "processed r \<Longrightarrow> pending_values k (r # rs) = pending_values k rs"
  "\<not> processed r \<Longrightarrow> rec_key r = k \<Longrightarrow> pending_values k (r # rs) = rec_value r # pending_values k rs"
  "rec_key r \<noteq> k \<Longrightarrow> pending_values k (r # rs) = pending_values k rs"
  by (simp_all add: pending_values_def)

lemma flagProcessed_id: "processed r \<Longrightarrow> flagProcessed r = r"
  by (simp add: flagProcessed_def)

lemma nextEntry_scan:
  "nextEntry cap m n index rs = (m', n', rs', start) \<Longrightarrow>
   \<exists>len. len \<le> length rs
      \<and> rs' = map flagProcessed (take len rs) @ drop len rs
      \<and> (\<forall>k. m' k = merged (m k) (pending_values k (take len rs)))
      \<and> (start = None \<longrightarrow> len = length rs)
      \<and> (\<forall>j. start = Some j \<longrightarrow>
             j = index + len \<and> len < length rs \<and> \<not> processed (rs ! len)
             \<and> m' (rec_key (rs ! len)) = None \<and> cap \<le> n')"
proof (induction rs arbitrary: m n index m' n' rs' start)
  case Nil
  then show ?case by simp
next
  case (Cons r rs)
  show ?case
  proof (cases "processed r")
    case True
    from Cons.prems True obtain rest' where
      rec: "nextEntry cap m n (index + 1) rs = (m', n', rest', start)" and rs': "rs' = r # rest'"
      by (auto split: prod.splits)
    from Cons.IH [OF rec] obtain len where len: "len \<le> length rs"
      "rest' = map flagProcessed (take len rs) @ drop len rs"
      "\<forall>k. m' k = merged (m k) (pending_values k (take len rs))"
      "start = None \<longrightarrow> len = length rs"
      "\<forall>j. start = Some j \<longrightarrow>
             j = index + 1 + len \<and> len < length rs \<and> \<not> processed (rs ! len)
             \<and> m' (rec_key (rs ! len)) = None \<and> cap \<le> n'"
      by blast
    show ?thesis
      using len True rs' by (intro exI [of _ "Suc len"]) (simp add: flagProcessed_id)
  next
    case False
    note unprocessed = False
    show ?thesis
    proof (cases "m (rec_key r)")
      case (Some vals)
      from Cons.prems unprocessed Some obtain rest' where
        rec: "nextEntry cap (m(rec_key r \<mapsto> vals @ [rec_value r])) (n + 1) (index + 1) rs
                = (m', n', rest', start)"
        and rs': "rs' = flagProcessed r # rest'"
        by (auto split: prod.splits)
      from Cons.IH [OF rec] obtain len where len: "len \<le> length rs"
        "rest' = map flagProcessed (take len rs) @ drop len rs"
        "\<forall>k. m' k = merged ((m(rec_key r \<mapsto> vals @ [rec_value r])) k) (pending_values k (take len rs))"
        "start = None \<longrightarrow> len = length rs"
        "\<forall>j. start = Some j \<longrightarrow>
               j = index + 1 + len \<and> len < length rs \<and> \<not> processed (rs ! len)
               \<and> m' (rec_key (rs ! len)) = None \<and> cap \<le> n'"
        by blast
      have "m' k = merged (m k) (pending_values k (take (Suc len) (r # rs)))" for k
        using len(3) [rule_format, of k] unprocessed Some by (cases "rec_key r = k") auto
      then show ?thesis
        using len rs' by (intro exI [of _ "Suc len"]) simp
    next
      case None
      show ?thesis
      proof (cases "n + 1 < cap")
        case True
        from Cons.prems unprocessed None True obtain rest' where
          rec: "nextEntry cap (m(rec_key r \<mapsto> [rec_value r])) (n + 1) (index + 1) rs
                  = (m', n', rest', start)"
          and rs': "rs' = flagProcessed r # rest'"
          by (auto split: prod.splits)
        from Cons.IH [OF rec] obtain len where len: "len \<le> length rs"
          "rest' = map flagProcessed (take len rs) @ drop len rs"
          "\<forall>k. m' k = merged ((m(rec_key r \<mapsto> [rec_value r])) k) (pending_values k (take len rs))"
          "start = None \<longrightarrow> len = length rs"
          "\<forall>j. start = Some j \<longrightarrow>
                 j = index + 1 + len \<and> len < length rs \<and> \<not> processed (rs ! len)
                 \<and> m' (rec_key (rs ! len)) = None \<and> cap \<le> n'"
          by blast
        have "m' k = merged (m k) (pending_values k (take (Suc len) (r # rs)))" for k
          using len(3) [rule_format, of k] unprocessed None by (cases "rec_key r = k") auto
        then show ?thesis
          using len rs' by (intro exI [of _ "Suc len"]) simp
      next
        case False
        with Cons.prems unprocessed None have
          "m' = m" "n' = n + 1" "rs' = r # rs" "start = Some index"
          by auto
        then show ?thesis
          using unprocessed None False by (intro exI [of _ 0]) simp
      qed
    qed
  qed
qed


lemma nextEntry_known_key:
  assumes "\<not> processed r" "m (rec_key r) = Some vals"
  shows "\<exists>m2 n2 rest2 start2 more.
           nextEntry cap m n index (r # rest) = (m2, n2, flagProcessed r # rest2, start2)
           \<and> m2 (rec_key r) = Some (vals @ rec_value r # more)"
proof -
  obtain m2 n2 rest2 start2 where
    rec: "nextEntry cap (m(rec_key r \<mapsto> vals @ [rec_value r])) (n + 1) (index + 1) rest
            = (m2, n2, rest2, start2)"
    by (cases "nextEntry cap (m(rec_key r \<mapsto> vals @ [rec_value r])) (n + 1) (index + 1) rest")
  from nextEntry_scan [OF rec] obtain len where
    "\<forall>k. m2 k = merged ((m(rec_key r \<mapsto> vals @ [rec_value r])) k) (pending_values k (take len rest))"
    by blast
  then have "m2 (rec_key r) = Some (vals @ rec_value r # pending_values (rec_key r) (take len rest))"
    by simp
  moreover have "nextEntry cap m n index (r # rest) = (m2, n2, flagProcessed r # rest2, start2)"
    using assms rec by simp
  ultimately show ?thesis by blast
qed

text \<open>
  C4. One batch of stage B, for every cap (the source's is \<open>maxValues\<close>), every starting map
  and counter: the batch scans a prefix of the rest of the file; every record of the prefix
  is flagged processed; for every key the map holds exactly the values it held before
  followed by the values of all the unprocessed records of that key in the prefix, in file
  order; the scan stops before the end only at an unprocessed record whose key is not in the
  map, and only when the counter has reached the cap. A record whose key is in the map is
  appended and flagged whatever the counter is.
\<close>

theorem stage_b_batch:
  "(nextEntry cap m n index rs = (m', n', rs', start) \<longrightarrow>
      (\<exists>len. len \<le> length rs
         \<and> rs' = map flagProcessed (take len rs) @ drop len rs
         \<and> (\<forall>k. m' k = merged (m k) (pending_values k (take len rs)))
         \<and> (start = None \<longrightarrow> len = length rs)
         \<and> (\<forall>j. start = Some j \<longrightarrow>
                j = index + len \<and> len < length rs \<and> \<not> processed (rs ! len)
                \<and> m' (rec_key (rs ! len)) = None \<and> cap \<le> n')))
   \<and> (\<not> processed r \<and> m (rec_key r) = Some vals \<longrightarrow>
      (\<exists>m2 n2 rest2 start2 more.
         nextEntry cap m n index (r # rest) = (m2, n2, flagProcessed r # rest2, start2)
         \<and> m2 (rec_key r) = Some (vals @ rec_value r # more)))"
  using nextEntry_scan [of cap m n index rs m' n' rs' start]
    nextEntry_known_key [of r m vals cap n index rest]
  by blast

lemma nextBatch_scan:
  assumes "nextBatch first file = (m, n, file', start)" "first \<le> length file"
  shows "\<exists>stop. first \<le> stop \<and> stop \<le> length file
      \<and> file' = take first file @ map flagProcessed (take (stop - first) (drop first file))
                  @ drop stop file
      \<and> (\<forall>k. m k = merged None (pending_values k (take (stop - first) (drop first file))))
      \<and> (start = None \<longrightarrow> stop = length file)
      \<and> (\<forall>j. start = Some j \<longrightarrow>
             j = stop \<and> stop < length file \<and> \<not> processed (file ! stop)
             \<and> m (rec_key (file ! stop)) = None \<and> maxValues \<le> n)"
proof -
  from assms(1) obtain rest where
    ne: "nextEntry maxValues Map.empty 0 first (drop first file) = (m, n, rest, start)"
    and f: "file' = take first file @ rest"
    by (auto simp: nextBatch_def split: prod.splits)
  from nextEntry_scan [OF ne] obtain len where len:
    "len \<le> length (drop first file)"
    "rest = map flagProcessed (take len (drop first file)) @ drop len (drop first file)"
    "\<forall>k. m k = merged None (pending_values k (take len (drop first file)))"
    "start = None \<longrightarrow> len = length (drop first file)"
    "\<forall>j. start = Some j \<longrightarrow>
       j = first + len \<and> len < length (drop first file) \<and> \<not> processed (drop first file ! len)
       \<and> m (rec_key (drop first file ! len)) = None \<and> maxValues \<le> n"
    by blast
  show ?thesis
    using len f assms(2)
    by (intro exI [of _ "first + len"]) (auto simp: add.commute)
qed

theorem stage_b_batch_witness:
  "nextEntry 3 Map.empty 0 0
     [\<lparr>processed = False, rec_key = ''a'', rec_value = (1::nat)\<rparr>,
      \<lparr>processed = False, rec_key = ''b'', rec_value = 2\<rparr>,
      \<lparr>processed = False, rec_key = ''a'', rec_value = 3\<rparr>,
      \<lparr>processed = False, rec_key = ''c'', rec_value = 4\<rparr>]
   = ([''a'' \<mapsto> [1, 3], ''b'' \<mapsto> [2]], 4,
      [\<lparr>processed = True, rec_key = ''a'', rec_value = 1\<rparr>,
       \<lparr>processed = True, rec_key = ''b'', rec_value = 2\<rparr>,
       \<lparr>processed = True, rec_key = ''a'', rec_value = 3\<rparr>,
       \<lparr>processed = False, rec_key = ''c'', rec_value = 4\<rparr>], Some 3)
   \<and> (\<exists>len \<le> 4. [''a'' \<mapsto> [1, 3], ''b'' \<mapsto> [2 :: nat]] ''a''
         = merged None (pending_values ''a'' (take len
             [\<lparr>processed = False, rec_key = ''a'', rec_value = (1::nat)\<rparr>,
              \<lparr>processed = False, rec_key = ''b'', rec_value = 2\<rparr>,
              \<lparr>processed = False, rec_key = ''a'', rec_value = 3\<rparr>,
              \<lparr>processed = False, rec_key = ''c'', rec_value = 4\<rparr>])))"
proof -
  let ?file = "[\<lparr>processed = False, rec_key = ''a'', rec_value = (1::nat)\<rparr>,
      \<lparr>processed = False, rec_key = ''b'', rec_value = 2\<rparr>,
      \<lparr>processed = False, rec_key = ''a'', rec_value = 3\<rparr>,
      \<lparr>processed = False, rec_key = ''c'', rec_value = 4\<rparr>]"
  let ?m = "[''a'' \<mapsto> [1, 3], ''b'' \<mapsto> [2 :: nat]]"
  let ?file' = "[\<lparr>processed = True, rec_key = ''a'', rec_value = (1::nat)\<rparr>,
       \<lparr>processed = True, rec_key = ''b'', rec_value = 2\<rparr>,
       \<lparr>processed = True, rec_key = ''a'', rec_value = 3\<rparr>,
       \<lparr>processed = False, rec_key = ''c'', rec_value = 4\<rparr>]"
  have run: "nextEntry 3 Map.empty 0 0 ?file = (?m, 4, ?file', Some 3)"
    by (simp add: flagProcessed_def fun_upd_twist)
  from stage_b_batch [of 3 Map.empty 0 0 ?file ?m 4 ?file' "Some 3", THEN conjunct1, rule_format, OF run]
  obtain len where l: "len \<le> length ?file"
    and mk: "\<forall>k. ?m k = merged (Map.empty k) (pending_values k (take len ?file))"
    by blast
  from mk have "?m ''a'' = merged (Map.empty ''a'') (pending_values ''a'' (take len ?file))"
    by (rule spec)
  then have "?m ''a'' = merged None (pending_values ''a'' (take len ?file))"
    by (simp only: empty_def)
  moreover have "len \<le> 4" using l by simp
  ultimately have "\<exists>len \<le> 4. ?m ''a'' = merged None (pending_values ''a'' (take len ?file))"
    by blast
  with run show ?thesis by blast
qed

section \<open>Queries: the base index, array indexes and geo indexes\<close>

text \<open>
  Source: \<^verbatim>\<open>src/data-index.js\<close>, \<^verbatim>\<open>DataIndex.query\<close>, \<^verbatim>\<open>DataIndex.cache\<close>,
  \<^verbatim>\<open>ArrayIndex.query\<close> and \<^verbatim>\<open>GeoIndex.query\<close>. The binary tree
  (\<^verbatim>\<open>BinaryBPlusTree.search\<close>), the lower-casing of the JavaScript runtime and the geohash
  computation are outside the sources given: they are the fields of \<open>query_env\<close>. The index
  carries its query cache and, as ghost fields, the list of the tree searches performed so
  far and the number of arrays its queries have made. A rejected promise or a thrown error
  is \<open>Inl\<close>. One query is modelled running alone: the lock around the tree search is free,
  and no cache timer fires while it runs.

  An array is an object: it has a reference besides its elements, and two arrays with the
  same elements are two objects. The reference says who made the array: the caller of a
  query, or a query of the index (\<^verbatim>\<open>val.map(...)\<close> in \<^verbatim>\<open>DataIndex.query\<close> makes a new array
  each time).
\<close>

datatype obj_ref = CallerObject nat | QueryObject nat

datatype key_value =
    KUndefined
  | KString string
  | KNumber int
  | KBoolean bool
  | KArray obj_ref "key_value list"

record 'm entry_value =
  recordPointer :: "nat list"
  metadata :: 'm

record 'm leaf_entry =
  entry_key :: key_value
  entry_values :: "'m entry_value list"

record 'm query_result =
  res_key :: string
  res_path :: string
  res_value :: key_value
  res_metadata :: 'm

record 'm query_results =
  matches :: "'m query_result list"
  match_values :: "'m entry_value list"

text \<open>
  The cache is a \<^verbatim>\<open>Map\<close> from the operator to a \<^verbatim>\<open>Map\<close> from the value to the cached entries.
  A \<^verbatim>\<open>Map\<close> finds a string, a number, a boolean or \<^verbatim>\<open>undefined\<close> by its value, and an
  object by its reference, whatever its contents.
\<close>

datatype cache_key = ByValue key_value | ByRef obj_ref

definition cache_key_of :: "key_value \<Rightarrow> cache_key" where
  "cache_key_of v = (case v of KArray r vs \<Rightarrow> ByRef r | _ \<Rightarrow> ByValue v)"

record 'm data_index =
  ix_path :: string
  ix_caseSensitive :: bool
  ix_cache :: "string \<times> cache_key \<Rightarrow> 'm leaf_entry list option"
  ix_searches :: "(string \<times> key_value) list"
  ix_arrays_made :: nat

record 'm query_env =
  tree_search :: "string \<Rightarrow> key_value \<Rightarrow> 'm leaf_entry list"
  toLocaleLowerCase :: "string \<Rightarrow> string"
  hashesInRadius :: "real \<Rightarrow> real \<Rightarrow> real \<Rightarrow> nat \<Rightarrow> string list"

datatype query_error =
    OperatorTypeError
  | ArrayOperatorError
  | GeoOperatorError
  | GeoValueError
  | RecordPointerError rp_error
  | JsTypeError

definition DataIndex_validOperators :: "string list" where
  "DataIndex_validOperators =
     [''<'', ''<='', ''=='', ''!='', ''>='', ''>'', ''exists'', ''!exists'', ''between'',
      ''!between'', ''like'', ''!like'', ''matches'', ''!matches'', ''in'', ''!in'']"

text \<open>
  The conversion to lower case of a query value; \<open>made\<close> is the reference of the array that
  \<^verbatim>\<open>val.map\<close> returns when the value is an array.
\<close>

definition lowercase_val :: "(string \<Rightarrow> string) \<Rightarrow> obj_ref \<Rightarrow> key_value \<Rightarrow> key_value" where
  "lowercase_val lower made v =
     (case v of
        KString s \<Rightarrow> KString (lower s)
      | KArray r vs \<Rightarrow>
          KArray made (map (\<lambda>x. case x of KString s \<Rightarrow> KString (lower s) | _ \<Rightarrow> x) vs)
      | _ \<Rightarrow> v)"

definition makes_array :: "'m data_index \<Rightarrow> key_value \<Rightarrow> bool" where
  "makes_array idx v = (\<not> ix_caseSensitive idx \<and> (case v of KArray r vs \<Rightarrow> True | _ \<Rightarrow> False))"

text \<open>The result for one tree value: \<^verbatim>\<open>new IndexQueryResult(rp.key, rp.path, entry.key, metadata)\<close>.\<close>

definition make_result ::
  "string \<Rightarrow> key_value \<Rightarrow> 'm entry_value \<Rightarrow> query_error + 'm query_result" where
  "make_result path k v =
     (case parseRecordPointer path (recordPointer v) of
        Inl e \<Rightarrow> Inl (RecordPointerError e)
      | Inr rp \<Rightarrow> Inr \<lparr>res_key = rp_key rp, res_path = rp_path rp, res_value = k,
                       res_metadata = metadata v\<rparr>)"

fun push_all ::
  "'m query_results \<Rightarrow> (query_error + 'm query_result \<times> 'm entry_value) list
     \<Rightarrow> query_error + 'm query_results" where
  "push_all acc [] = Inr acc"
| "push_all acc (Inl e # rest) = Inl e"
| "push_all acc (Inr (r, v) # rest) =
     push_all \<lparr>matches = matches acc @ [r], match_values = match_values acc @ [v]\<rparr> rest"

definition all_results :: "string \<Rightarrow> 'm leaf_entry list \<Rightarrow> query_error + 'm query_results" where
  "all_results path entries =
     push_all \<lparr>matches = [], match_values = []\<rparr>
       (concat (map (\<lambda>e. map (\<lambda>v. map_sum id (\<lambda>r. (r, v)) (make_result path (entry_key e) v))
                              (entry_values e)) entries))"

text \<open>
  The filter branch. \<^verbatim>\<open>val.rp\<close> is the concatenation of the base-36 digits of the bytes of
  the record pointer; the values of the larger set are looked up by it through a tree built
  with unique keys, that is, at the first index that has the same \<^verbatim>\<open>rp\<close>. (The values of the
  filter and the values of the entries are taken to be different objects, so that the test
  \<^verbatim>\<open>match === value\<close> holds exactly when the smallest set is the set of the entries' values.)
\<close>

definition digit36 :: "nat \<Rightarrow> char" where
  "digit36 d = (if d < 10 then char_of (48 + d) else char_of (87 + d))"

function toString36 :: "nat \<Rightarrow> string" where
  "toString36 n = (if n < 36 then [digit36 n] else toString36 (n div 36) @ [digit36 (n mod 36)])"
  by pat_completeness auto
termination
  by (relation "measure id") auto

declare toString36.simps [simp del]

definition rp_string :: "'m entry_value \<Rightarrow> string" where
  "rp_string v = concat (map toString36 (recordPointer v))"

fun first_index :: "('a \<Rightarrow> bool) \<Rightarrow> 'a list \<Rightarrow> nat option" where
  "first_index P [] = None"
| "first_index P (x # xs) = (if P x then Some 0 else map_option Suc (first_index P xs))"

fun entry_offsets :: "nat \<Rightarrow> 'm leaf_entry list \<Rightarrow> nat list" where
  "entry_offsets n [] = []"
| "entry_offsets n (e # es) = n # entry_offsets (n + length (entry_values e)) es"

text \<open>
  \<^verbatim>\<open>valueEntryIndexes.findIndex((entryIndex, i, arr) =>
       i + 1 === arr.length || (entryIndex <= matchIndex && arr[i + 1] > matchIndex))\<close>
\<close>

fun entry_index_of :: "nat \<Rightarrow> nat \<Rightarrow> nat list \<Rightarrow> nat option" where
  "entry_index_of matchIndex i [] = None"
| "entry_index_of matchIndex i [entryIndex] = Some i"
| "entry_index_of matchIndex i (entryIndex # next_index # rest) =
     (if entryIndex \<le> matchIndex \<and> next_index > matchIndex then Some i
      else entry_index_of matchIndex (i + 1) (next_index # rest))"

definition filtered_results ::
  "string \<Rightarrow> 'm leaf_entry list \<Rightarrow> 'm entry_value list \<Rightarrow> query_error + 'm query_results" where
  "filtered_results path entries filterValues =
     (let vals = concat (map entry_values entries);
          valueEntryIndexes = entry_offsets 0 entries;
          smallest_is_filter = length filterValues < length vals;
          smallestSet = (if smallest_is_filter then filterValues else vals);
          otherSet = (if smallest_is_filter then vals else filterValues);
          found = concat (map (\<lambda>i.
                    case first_index (\<lambda>other. rp_string other = rp_string (smallestSet ! i)) otherSet of
                      None \<Rightarrow> []
                    | Some j \<Rightarrow>
                        (let match = (if smallest_is_filter then otherSet ! j else smallestSet ! i);
                             matchIndex = (if smallest_is_filter then j else i)
                         in case entry_index_of matchIndex 0 valueEntryIndexes of
                              None \<Rightarrow> [Inl JsTypeError]
                            | Some e \<Rightarrow>
                                [map_sum id (\<lambda>r. (r, match))
                                   (make_result path (entry_key (entries ! e)) match)]))
                    [0..<length smallestSet])
      in push_all \<lparr>matches = [], match_values = []\<rparr> found)"

definition cache_get :: "'m data_index \<Rightarrow> string \<Rightarrow> key_value \<Rightarrow> 'm leaf_entry list option" where
  "cache_get idx op v = ix_cache idx (op, cache_key_of v)"

definition cache_set :: "'m data_index \<Rightarrow> string \<Rightarrow> key_value \<Rightarrow> 'm leaf_entry list \<Rightarrow> 'm data_index" where
  "cache_set idx op v entries = idx\<lparr>ix_cache := (ix_cache idx)((op, cache_key_of v) \<mapsto> entries)\<rparr>"

text \<open>
  \<^verbatim>\<open>DataIndex.query\<close>. When the value is an array and the index is not case sensitive,
  \<^verbatim>\<open>val\<close> is by then the array that \<^verbatim>\<open>val.map\<close> has just made: an object that is a key of
  no \<^verbatim>\<open>Map\<close>, so that \<^verbatim>\<open>this.cache(op, val)\<close> returns \<^verbatim>\<open>null\<close> whatever the cache holds.
\<close>

definition DataIndex_query ::
  "'m query_env \<Rightarrow> 'm data_index \<Rightarrow> string \<Rightarrow> key_value \<Rightarrow> 'm entry_value list option
     \<Rightarrow> (query_error + 'm query_results) \<times> 'm data_index" where
  "DataIndex_query env idx op v filter_values =
     (if op \<notin> set DataIndex_validOperators then (Inl OperatorTypeError, idx)
      else
        let v' = (if \<not> ix_caseSensitive idx
                  then lowercase_val (toLocaleLowerCase env) (QueryObject (ix_arrays_made idx)) v
                  else v);
            idx1 = (if makes_array idx v then idx\<lparr>ix_arrays_made := ix_arrays_made idx + 1\<rparr>
                    else idx);
            (entries, idx') =
              (case (if makes_array idx v then None else cache_get idx1 op v') of
                 Some cached \<Rightarrow> (cached, idx1)
               | None \<Rightarrow>
                   (let entries = tree_search env op v'
                    in (entries,
                        cache_set (idx1\<lparr>ix_searches := ix_searches idx1 @ [(op, v')]\<rparr>) op v' entries)))
        in (case filter_values of
              Some filterValues \<Rightarrow> filtered_results (ix_path idx) entries filterValues
            | None \<Rightarrow> all_results (ix_path idx) entries,
            idx'))"

definition ArrayIndex_validOperators :: "string list" where
  "ArrayIndex_validOperators = [''contains'', ''!contains'']"

text \<open>
  \<^verbatim>\<open>ArrayIndex.query(op, val)\<close> declares two parameters: a third argument of a call is
  received and never read. It is the last parameter of the model.
\<close>

definition ArrayIndex_query ::
  "'m query_env \<Rightarrow> 'm data_index \<Rightarrow> string \<Rightarrow> key_value \<Rightarrow> 'm entry_value list option
     \<Rightarrow> (query_error + 'm query_results) \<times> 'm data_index" where
  "ArrayIndex_query env idx op v options =
     (if op \<notin> set ArrayIndex_validOperators then (Inl ArrayOperatorError, idx)
      else
        let searchOp = (if op = ''contains'' then ''=='' else ''!='')
        in DataIndex_query env idx searchOp v None)"

record geo_query =
  lat :: "real option"
  long :: "real option"
  radius :: "real option"

definition getGeoRadiusPrecision :: "real \<Rightarrow> nat" where
  "getGeoRadiusPrecision radiusM =
     (if radiusM < 0.01 then 12
      else if radiusM < 0.075 then 11
      else if radiusM < 0.6 then 10
      else if radiusM < 2.3 then 9
      else if radiusM < 19 then 8
      else if radiusM < 76 then 7
      else if radiusM < 610 then 6
      else if radiusM < 2400 then 5
      else if radiusM < 19500 then 4
      else if radiusM < 78700 then 3
      else if radiusM < 626000 then 2
      else 1)"

definition GeoIndex_validOperators :: "string list" where
  "GeoIndex_validOperators = [''geo:nearby'']"

text \<open>
  The \<^verbatim>\<open>like\<close> queries of \<^verbatim>\<open>GeoIndex.query\<close>, one per target hash, each through the base
  query without options; \<^verbatim>\<open>Promise.all\<close> rejects with the first error.
\<close>

fun geo_queries ::
  "'m query_env \<Rightarrow> 'm data_index \<Rightarrow> string list
     \<Rightarrow> (query_error + 'm query_results list) \<times> 'm data_index" where
  "geo_queries env idx [] = (Inr [], idx)"
| "geo_queries env idx (hash # hashes) =
     (let (r, idx') = DataIndex_query env idx ''like'' (KString (hash @ ''*'')) None;
          (rs, idx'') = geo_queries env idx' hashes
      in (case r of
            Inl e \<Rightarrow> Inl e
          | Inr set1 \<Rightarrow> (case rs of Inl e \<Rightarrow> Inl e | Inr sets \<Rightarrow> Inr (set1 # sets)),
          idx''))"

definition GeoIndex_query ::
  "'m query_env \<Rightarrow> 'm data_index \<Rightarrow> string \<Rightarrow> geo_query \<Rightarrow> 'm entry_value list option
     \<Rightarrow> (query_error + 'm query_result list) \<times> 'm data_index" where
  "GeoIndex_query env idx op v options =
     (if op \<notin> set GeoIndex_validOperators then (Inl GeoOperatorError, idx)
      else
        (case (lat v, long v, radius v) of
           (Some la, Some lo, Some r) \<Rightarrow>
             (let precision = getGeoRadiusPrecision (r / 10);
                  targetHashes = hashesInRadius env la lo r precision;
                  (sets, idx') = geo_queries env idx targetHashes
              in (map_sum id (\<lambda>ss. concat (map matches ss)) sets, idx'))
         | _ \<Rightarrow> (Inl GeoValueError, idx)))"

text \<open>The value the tree is searched with: lower-cased unless the index is case sensitive.\<close>

definition query_value :: "'m query_env \<Rightarrow> 'm data_index \<Rightarrow> key_value \<Rightarrow> key_value" where
  "query_value env idx v =
     (if \<not> ix_caseSensitive idx
      then lowercase_val (toLocaleLowerCase env) (QueryObject (ix_arrays_made idx)) v
      else v)"

text \<open>What \<^verbatim>\<open>this.cache(op, val)\<close> returns in the query of a value.\<close>

definition cached_entries ::
  "'m query_env \<Rightarrow> 'm data_index \<Rightarrow> string \<Rightarrow> key_value \<Rightarrow> 'm leaf_entry list option" where
  "cached_entries env idx op v =
     (if makes_array idx v then None else cache_get idx op (query_value env idx v))"

lemma DataIndex_query_searches:
  "op \<in> set DataIndex_validOperators \<Longrightarrow>
   ix_searches (snd (DataIndex_query env idx op v f)) =
     ix_searches idx @
       (case cached_entries env idx op v of
          None \<Rightarrow> [(op, query_value env idx v)]
        | Some cached \<Rightarrow> [])"
  by (simp add: DataIndex_query_def query_value_def cached_entries_def cache_set_def
      cache_get_def Let_def split: option.splits prod.splits)

lemma DataIndex_query_invalid:
  "op \<notin> set DataIndex_validOperators \<Longrightarrow>
   DataIndex_query env idx op v f = (Inl OperatorTypeError, idx)"
  by (simp add: DataIndex_query_def)

text \<open>
  The index after a base query: an array counted when one was made, and, unless the cache
  had entries for the operator and the value, one tree search and its entries set in the
  cache.
\<close>

lemma DataIndex_query_state:
  assumes "op \<in> set DataIndex_validOperators"
  shows "snd (DataIndex_query env idx op v f) =
     (let idx1 = (if makes_array idx v then idx\<lparr>ix_arrays_made := ix_arrays_made idx + 1\<rparr>
                  else idx);
          qv = query_value env idx v
      in case cached_entries env idx op v of
           Some cached \<Rightarrow> idx1
         | None \<Rightarrow>
             cache_set (idx1\<lparr>ix_searches := ix_searches idx @ [(op, qv)]\<rparr>) op qv
               (tree_search env op qv))"
  using assms
  by (simp add: DataIndex_query_def query_value_def cached_entries_def cache_get_def Let_def
      split: option.splits prod.splits)

text \<open>
  On an index that is not case sensitive the array of a query is converted to a new array,
  which the cache cannot hold: the tree is searched at every such query, also when the
  caller passes the same array again.
\<close>

lemma array_value_always_searched:
  assumes "op \<in> set DataIndex_validOperators" "\<not> ix_caseSensitive idx"
  shows "ix_searches (snd (DataIndex_query env idx op (KArray r vs) f))
           = ix_searches idx @ [(op, query_value env idx (KArray r vs))]"
  unfolding DataIndex_query_searches [OF assms(1)]
  using assms(2) by (simp add: cached_entries_def makes_array_def)

lemma array_queried_twice:
  assumes "\<not> ix_caseSensitive idx"
    and "idx1 = snd (ArrayIndex_query env idx ''contains'' (KArray r vs) o1)"
    and "idx2 = snd (ArrayIndex_query env idx1 ''contains'' (KArray r vs) o2)"
  shows "ix_searches idx2 =
           ix_searches idx @ [(''=='', query_value env idx (KArray r vs)),
                              (''=='', query_value env idx1 (KArray r vs))]"
proof -
  have v: "''=='' \<in> set DataIndex_validOperators" by (simp add: DataIndex_validOperators_def)
  have a: "idx1 = snd (DataIndex_query env idx ''=='' (KArray r vs) None)"
    and b: "idx2 = snd (DataIndex_query env idx1 ''=='' (KArray r vs) None)"
    using assms(2,3) by (simp_all add: ArrayIndex_query_def ArrayIndex_validOperators_def)
  have c1: "\<not> ix_caseSensitive idx1"
    unfolding a DataIndex_query_state [OF v] using assms(1)
    by (simp add: Let_def cache_set_def split: option.splits)
  have s1: "ix_searches idx1 = ix_searches idx @ [(''=='', query_value env idx (KArray r vs))]"
    unfolding a using v assms(1) by (rule array_value_always_searched)
  have "ix_searches idx2 = ix_searches idx1 @ [(''=='', query_value env idx1 (KArray r vs))]"
    unfolding b using v c1 by (rule array_value_always_searched)
  then show ?thesis using s1 by simp
qed

text \<open>
  On a case sensitive index the array of the caller is the key: the same object is found
  again, whatever its elements are by then, and another array with the same elements is not.
  A string is found by its value.
\<close>

lemma same_array_cached:
  assumes "ix_caseSensitive idx"
    and "idx1 = snd (ArrayIndex_query env idx ''contains'' (KArray r vs) o1)"
    and "idx2 = snd (ArrayIndex_query env idx1 ''contains'' (KArray r vs') o2)"
    and "cache_get idx ''=='' (KArray r vs) = None"
  shows "ix_searches idx2 = ix_searches idx @ [(''=='', KArray r vs)]"
proof -
  have v: "''=='' \<in> set DataIndex_validOperators" by (simp add: DataIndex_validOperators_def)
  have a: "idx1 = snd (DataIndex_query env idx ''=='' (KArray r vs) None)"
    and b: "idx2 = snd (DataIndex_query env idx1 ''=='' (KArray r vs') None)"
    using assms(2,3) by (simp_all add: ArrayIndex_query_def ArrayIndex_validOperators_def)
  have i1: "idx1 = cache_set (idx\<lparr>ix_searches := ix_searches idx @ [(''=='', KArray r vs)]\<rparr>)
      ''=='' (KArray r vs) (tree_search env ''=='' (KArray r vs))"
    unfolding a DataIndex_query_state [OF v] using assms(1,4)
    by (simp add: Let_def makes_array_def query_value_def cached_entries_def)
  show ?thesis
    unfolding b DataIndex_query_state [OF v]
    using assms(1)
    by (simp add: i1 Let_def makes_array_def query_value_def cached_entries_def cache_set_def
        cache_get_def cache_key_of_def)
qed

lemma equal_array_not_cached:
  assumes "ix_caseSensitive idx"
    and "idx1 = snd (ArrayIndex_query env idx ''contains'' (KArray r vs) o1)"
    and "idx2 = snd (ArrayIndex_query env idx1 ''contains'' (KArray r' vs) o2)"
    and "cache_get idx ''=='' (KArray r vs) = None" "cache_get idx ''=='' (KArray r' vs) = None"
    and "r' \<noteq> r"
  shows "ix_searches idx2 = ix_searches idx @ [(''=='', KArray r vs), (''=='', KArray r' vs)]"
proof -
  have v: "''=='' \<in> set DataIndex_validOperators" by (simp add: DataIndex_validOperators_def)
  have a: "idx1 = snd (DataIndex_query env idx ''=='' (KArray r vs) None)"
    and b: "idx2 = snd (DataIndex_query env idx1 ''=='' (KArray r' vs) None)"
    using assms(2,3) by (simp_all add: ArrayIndex_query_def ArrayIndex_validOperators_def)
  have i1: "idx1 = cache_set (idx\<lparr>ix_searches := ix_searches idx @ [(''=='', KArray r vs)]\<rparr>)
      ''=='' (KArray r vs) (tree_search env ''=='' (KArray r vs))"
    unfolding a DataIndex_query_state [OF v] using assms(1,4)
    by (simp add: Let_def makes_array_def query_value_def cached_entries_def)
  show ?thesis
    unfolding b DataIndex_query_state [OF v]
    using assms(1,5,6)
    by (simp add: i1 Let_def makes_array_def query_value_def cached_entries_def cache_set_def
        cache_get_def cache_key_of_def)
qed

lemma string_queried_twice:
  assumes "idx1 = snd (ArrayIndex_query env idx ''contains'' (KString s) o1)"
    and "idx2 = snd (ArrayIndex_query env idx1 ''contains'' (KString s) o2)"
    and "cache_get idx ''=='' (query_value env idx (KString s)) = None"
  shows "ix_searches idx2 = ix_searches idx @ [(''=='', query_value env idx (KString s))]"
proof -
  have v: "''=='' \<in> set DataIndex_validOperators" by (simp add: DataIndex_validOperators_def)
  have a: "idx1 = snd (DataIndex_query env idx ''=='' (KString s) None)"
    and b: "idx2 = snd (DataIndex_query env idx1 ''=='' (KString s) None)"
    using assms(1,2) by (simp_all add: ArrayIndex_query_def ArrayIndex_validOperators_def)
  define qv where "qv = query_value env idx (KString s)"
  have i1: "idx1 = cache_set (idx\<lparr>ix_searches := ix_searches idx @ [(''=='', qv)]\<rparr>)
      ''=='' qv (tree_search env ''=='' qv)"
    unfolding a DataIndex_query_state [OF v] using assms(3)
    by (simp add: Let_def makes_array_def qv_def cached_entries_def)
  have q1: "query_value env idx1 (KString s) = qv"
    by (simp add: i1 qv_def query_value_def cache_set_def lowercase_val_def)
  have m1: "\<not> makes_array idx1 (KString s)" by (simp add: makes_array_def)
  have h: "cached_entries env idx1 ''=='' (KString s) = Some (tree_search env ''=='' qv)"
    unfolding cached_entries_def q1 using m1 by (simp add: i1 cache_get_def cache_set_def)
  have "idx2 = idx1"
    unfolding b DataIndex_query_state [OF v] by (simp add: Let_def q1 m1 h)
  then show ?thesis by (simp add: i1 cache_set_def qv_def)
qed

text \<open>
  C9, as the code has it. \<open>contains\<close> is exactly the base query with the operator \<open>==\<close> and
  \<open>!contains\<close> exactly the base query with \<open>!=\<close>; the base query searches the tree once,
  with that operator, when the cache finds no entries for the operator and the value, and
  not at all when it does (the cache finds a string, a number or a boolean by its value and
  an array by its reference). Every other operator is refused with the index unchanged: no
  tree search, no cache access.
\<close>

theorem array_query_translates:
  "ArrayIndex_query env idx ''contains'' v options = DataIndex_query env idx ''=='' v None
   \<and> ArrayIndex_query env idx ''!contains'' v options = DataIndex_query env idx ''!='' v None
   \<and> ix_searches (snd (ArrayIndex_query env idx ''contains'' v options)) =
       ix_searches idx @
         (case cached_entries env idx ''=='' v of
            None \<Rightarrow> [(''=='', query_value env idx v)]
          | Some cached \<Rightarrow> [])
   \<and> ix_searches (snd (ArrayIndex_query env idx ''!contains'' v options)) =
       ix_searches idx @
         (case cached_entries env idx ''!='' v of
            None \<Rightarrow> [(''!='', query_value env idx v)]
          | Some cached \<Rightarrow> [])
   \<and> (op \<noteq> ''contains'' \<and> op \<noteq> ''!contains'' \<longrightarrow>
        ArrayIndex_query env idx op v options = (Inl ArrayOperatorError, idx))"
proof -
  have c: "ArrayIndex_query env idx ''contains'' v options = DataIndex_query env idx ''=='' v None"
    by (simp add: ArrayIndex_query_def ArrayIndex_validOperators_def)
  have n: "ArrayIndex_query env idx ''!contains'' v options = DataIndex_query env idx ''!='' v None"
    by (simp add: ArrayIndex_query_def ArrayIndex_validOperators_def)
  have v1: "''=='' \<in> set DataIndex_validOperators" and v2: "''!='' \<in> set DataIndex_validOperators"
    by (simp_all add: DataIndex_validOperators_def)
  have e: "op \<noteq> ''contains'' \<and> op \<noteq> ''!contains'' \<longrightarrow>
        ArrayIndex_query env idx op v options = (Inl ArrayOperatorError, idx)"
    by (simp add: ArrayIndex_query_def ArrayIndex_validOperators_def)
  show ?thesis
    unfolding c n using DataIndex_query_searches [OF v1] DataIndex_query_searches [OF v2] e
    by blast
qed

definition example_env :: "unit query_env" where
  "example_env =
     \<lparr>tree_search = (\<lambda>op v. [\<lparr>entry_key = v,
                               entry_values = [\<lparr>recordPointer = createRecordPointer [] ''chat1'',
                                                metadata = ()\<rparr>]\<rparr>]),
      toLocaleLowerCase = id,
      hashesInRadius = (\<lambda>la lo r p. [''u173z''])\<rparr>"

definition example_array_index :: "unit data_index" where
  "example_array_index =
     \<lparr>ix_path = ''chats'', ix_caseSensitive = True, ix_cache = Map.empty, ix_searches = [],
      ix_arrays_made = 0\<rparr>"

theorem array_query_translates_witness:
  "ArrayIndex_query example_env example_array_index ''contains'' (KString ''b'') None
     = DataIndex_query example_env example_array_index ''=='' (KString ''b'') None
   \<and> ix_searches (snd (ArrayIndex_query example_env example_array_index ''contains''
         (KString ''b'') None)) = [(''=='', KString ''b'')]
   \<and> ArrayIndex_query example_env example_array_index ''=='' (KString ''b'') None
     = (Inl ArrayOperatorError, example_array_index)"
proof -
  note t = array_query_translates [of example_env example_array_index "KString ''b''" None "''==''"]
  have q: "query_value example_env example_array_index (KString ''b'') = KString ''b''"
    by (simp add: query_value_def example_array_index_def)
  have c: "cached_entries example_env example_array_index ''=='' (KString ''b'') = None"
    by (simp add: cached_entries_def cache_get_def example_array_index_def)
  from t have "ix_searches (snd (ArrayIndex_query example_env example_array_index ''contains''
         (KString ''b'') None)) = ix_searches example_array_index @
         (case cached_entries example_env example_array_index ''=='' (KString ''b'') of
            None \<Rightarrow> [(''=='', query_value example_env example_array_index (KString ''b''))]
          | Some cached \<Rightarrow> [])"
    by blast
  then have s: "ix_searches (snd (ArrayIndex_query example_env example_array_index ''contains''
         (KString ''b'') None)) = [(''=='', KString ''b'')]"
    unfolding q c by (simp add: example_array_index_def)
  from t have e: "ArrayIndex_query example_env example_array_index ''=='' (KString ''b'') None
     = (Inl ArrayOperatorError, example_array_index)"
    by simp
  from t s e show ?thesis by blast
qed

text \<open>
  The claim as stated says that \<open>contains\<close> always performs the tree search. On a new index
  the same query made twice searches the tree once: the second query is served from the
  cache.
\<close>

theorem array_query_cached_counterexample:
  "\<not> (\<forall>(env :: unit query_env) idx v.
        ix_searches (snd (ArrayIndex_query env idx ''contains'' v None))
          = ix_searches idx @ [(''=='', query_value env idx v)])"
proof
  assume a: "\<forall>(env :: unit query_env) idx v.
        ix_searches (snd (ArrayIndex_query env idx ''contains'' v None))
          = ix_searches idx @ [(''=='', query_value env idx v)]"
  define idx1 where
    "idx1 = snd (ArrayIndex_query example_env example_array_index ''contains'' (KString ''b'') None)"
  define idx2 where
    "idx2 = snd (ArrayIndex_query example_env idx1 ''contains'' (KString ''b'') None)"
  have "cache_get example_array_index ''==''
          (query_value example_env example_array_index (KString ''b'')) = None"
    by (simp add: cache_get_def example_array_index_def)
  from string_queried_twice [OF idx1_def idx2_def this]
  have "length (ix_searches idx2) = 1"
    by (simp add: example_array_index_def)
  moreover have "ix_searches idx1 = ix_searches example_array_index
      @ [(''=='', query_value example_env example_array_index (KString ''b''))]"
    unfolding idx1_def using a by blast
  moreover have "ix_searches idx2 = ix_searches idx1
      @ [(''=='', query_value example_env idx1 (KString ''b''))]"
    unfolding idx2_def using a by blast
  ultimately show False by simp
qed

lemma geo_queries_no_options:
  "GeoIndex_query env idx op g options = GeoIndex_query env idx op g None"
  by (simp add: GeoIndex_query_def)

text \<open>
  C10. The result (and the state of the index afterwards) of a query on an array index or on
  a geo index does not depend on the options argument: with a filter it is what it is without
  one.
\<close>

theorem specialised_queries_ignore_options:
  "ArrayIndex_query env idx op v (Some f) = ArrayIndex_query env idx op v None
   \<and> GeoIndex_query env idx ''geo:nearby'' g (Some f) = GeoIndex_query env idx ''geo:nearby'' g None"
  by (simp add: ArrayIndex_query_def GeoIndex_query_def)

theorem specialised_queries_ignore_options_witness:
  "ArrayIndex_query example_env example_array_index ''contains'' (KString ''b'') (Some [])
     = ArrayIndex_query example_env example_array_index ''contains'' (KString ''b'') None
   \<and> GeoIndex_query example_env example_array_index ''geo:nearby''
       \<lparr>lat = Some 52.359, long = Some 4.884, radius = Some 500\<rparr> (Some [])
     = GeoIndex_query example_env example_array_index ''geo:nearby''
       \<lparr>lat = Some 52.359, long = Some 4.884, radius = Some 500\<rparr> None"
  by (rule specialised_queries_ignore_options)

text \<open>The base query does read its filter: the same search with an empty filter gives no match.\<close>

lemma base_query_reads_filter:
  "fst (DataIndex_query example_env example_array_index ''=='' (KString ''b'') (Some []))
     = Inr \<lparr>matches = [], match_values = []\<rparr>
   \<and> fst (DataIndex_query example_env example_array_index ''=='' (KString ''b'') None)
     = Inr \<lparr>matches = [\<lparr>res_key = ''chat1'', res_path = ''chats/chat1'',
                          res_value = KString ''b'', res_metadata = ()\<rparr>],
            match_values = [\<lparr>recordPointer = createRecordPointer [] ''chat1'', metadata = ()\<rparr>]\<rparr>"
proof -
  have p: "parseRecordPointer ''chats'' (createRecordPointer [] ''chat1'')
      = Inr \<lparr>rp_key = ''chat1'', rp_path = ''chats/chat1'', rp_wildcards = []\<rparr>"
    by (simp add: parse_created_pointer)
  show ?thesis
    by (simp add: DataIndex_query_def DataIndex_validOperators_def cache_get_def cache_set_def
        cache_key_of_def makes_array_def
        example_array_index_def example_env_def filtered_results_def all_results_def
        make_result_def p Let_def)
qed

section \<open>Fulltext index: occurrence lists and the phrase check\<close>

text \<open>
  Source: \<^verbatim>\<open>src/data-index.js\<close>, class \<^verbatim>\<open>TextInfo\<close> (the word positions stored as the
  \<^verbatim>\<open>_occurs_\<close> metadata, \<^verbatim>\<open>wordInfo.indexes.join(',')\<close>) and the phrase check at the end of
  \<^verbatim>\<open>FullTextIndex.query\<close>:
  \<^verbatim>\<open>
  match.metadata._occurs_ = match.metadata._occurs_.split(',').map(parseInt);
  \<close>
  \<^verbatim>\<open>Array.prototype.map\<close> calls its callback with the element and its index, so the radix of
  \<^verbatim>\<open>parseInt\<close> is the position of the number in the list. \<^verbatim>\<open>parseInt\<close> follows ECMAScript
  (leading white space of the ASCII range, an optional sign, radix 0 meaning 10, a \<^verbatim>\<open>0x\<close> prefix
  for radix 16, the longest prefix of digits of the radix); \<^verbatim>\<open>NaN\<close> is \<open>None\<close>.
\<close>

definition digit_value :: "char \<Rightarrow> nat option" where
  "digit_value c =
     (let n = (of_char c :: nat)
      in if 48 \<le> n \<and> n \<le> 57 then Some (n - 48)
         else if 97 \<le> n \<and> n \<le> 122 then Some (n - 87)
         else if 65 \<le> n \<and> n \<le> 90 then Some (n - 55)
         else None)"

fun parse_digits :: "nat \<Rightarrow> string \<Rightarrow> nat option \<Rightarrow> nat option" where
  "parse_digits r [] acc = acc"
| "parse_digits r (c # cs) acc =
     (case digit_value c of
        None \<Rightarrow> acc
      | Some d \<Rightarrow>
          if d < r then parse_digits r cs (Some ((case acc of None \<Rightarrow> 0 | Some a \<Rightarrow> a) * r + d))
          else acc)"

definition is_space :: "char \<Rightarrow> bool" where
  "is_space c = (of_char c \<in> {9, 10, 11, 12, 13, 32 :: nat})"

definition strip_hex_prefix :: "string \<Rightarrow> string option" where
  "strip_hex_prefix s =
     (case s of
        c1 # c2 # rest \<Rightarrow> if c1 = CHR ''0'' \<and> (c2 = CHR ''x'' \<or> c2 = CHR ''X'') then Some rest else None
      | _ \<Rightarrow> None)"

definition parseInt :: "string \<Rightarrow> nat \<Rightarrow> int option" where
  "parseInt str radix =
     (let s = dropWhile is_space str;
          negative = (s \<noteq> [] \<and> hd s = CHR ''-'');
          s = (if s \<noteq> [] \<and> (hd s = CHR ''+'' \<or> hd s = CHR ''-'') then tl s else s)
      in if radix \<noteq> 0 \<and> (radix < 2 \<or> radix > 36) then None
         else
           let stripPrefix = (radix = 0 \<or> radix = 16);
               r = (if radix = 0 then 10 else radix);
               (r, s) = (case (if stripPrefix then strip_hex_prefix s else None) of
                           Some rest \<Rightarrow> (16, rest)
                         | None \<Rightarrow> (r, s))
           in map_option (\<lambda>n. if negative then - int n else int n) (parse_digits r s None))"

text \<open>\<^verbatim>\<open>String.prototype.split(',')\<close> and \<^verbatim>\<open>list.map(parseInt)\<close>.\<close>

fun split_comma :: "string \<Rightarrow> string list" where
  "split_comma [] = [[]]"
| "split_comma (c # cs) =
     (if c = CHR '','' then [] # split_comma cs
      else (case split_comma cs of
              [] \<Rightarrow> [[c]]
            | w # ws \<Rightarrow> (c # w) # ws))"

definition map_parseInt :: "string list \<Rightarrow> int option list" where
  "map_parseInt xs = map (\<lambda>(i, s). parseInt s i) (enumerate 0 xs)"

definition parse_occurs :: "string \<Rightarrow> int option list" where
  "parse_occurs occurs = map_parseInt (split_comma occurs)"

text \<open>
  \<^verbatim>\<open>check(wordMatchIndex, prevWordIndex)\<close> for the second and later words, over the occurrence
  lists of the words from \<^verbatim>\<open>wordMatchIndex\<close> on. \<^verbatim>\<open>indexOf\<close> compares with \<^verbatim>\<open>===\<close>: \<^verbatim>\<open>NaN\<close> is
  never found, and \<^verbatim>\<open>NaN + 1\<close> is \<^verbatim>\<open>NaN\<close>.
\<close>

definition js_succ :: "int option \<Rightarrow> int option" where
  "js_succ n = map_option (\<lambda>k. k + 1) n"

definition js_includes :: "int option list \<Rightarrow> int option \<Rightarrow> bool" where
  "js_includes xs n = (n \<noteq> None \<and> n \<in> set xs)"

fun check_next :: "int option list list \<Rightarrow> int option \<Rightarrow> bool" where
  "check_next [] prevWordIndex = False"
| "check_next (sourceIndexes # rest) prevWordIndex =
     (if js_includes sourceIndexes (js_succ prevWordIndex) then
        (if rest = [] then True else check_next rest (js_succ prevWordIndex))
      else False)"

datatype phrase_error = PhraseTypeError

text \<open>
  \<^verbatim>\<open>check(0)\<close>: every occurrence of the first word is tried. The source runs it only for two
  words or more; with one word the call \<^verbatim>\<open>check(1, ...)\<close> would read a missing element.
\<close>

definition check :: "int option list list \<Rightarrow> phrase_error + bool" where
  "check wordMatches =
     (case wordMatches of
        [] \<Rightarrow> Inl PhraseTypeError
      | sourceIndexes # rest \<Rightarrow>
          if sourceIndexes = [] then Inr False
          else if rest = [] then Inl PhraseTypeError
          else Inr (list_ex (\<lambda>i. check_next rest i) sourceIndexes))"

text \<open>
  The results of the word queries: the path of the record and the \<^verbatim>\<open>_occurs_\<close> string of the
  word in it. \<open>phrase_filter\<close> is the \<^verbatim>\<open>reduce\<close> over the results: a result is kept when
  \<open>check\<close> holds for the matches of its path, one per word, in the order of the words.
\<close>

record word_match =
  wm_path :: string
  wm_occurs :: string

fun find_match :: "string \<Rightarrow> word_match list \<Rightarrow> word_match option" where
  "find_match path [] = None"
| "find_match path (r # rs) = (if wm_path r = path then Some r else find_match path rs)"

fun collect_matches :: "string \<Rightarrow> word_match list list \<Rightarrow> phrase_error + word_match list" where
  "collect_matches path [] = Inr []"
| "collect_matches path (results # rest) =
     (case find_match path results of
        None \<Rightarrow> Inl PhraseTypeError
      | Some m \<Rightarrow> (case collect_matches path rest of
                     Inl e \<Rightarrow> Inl e
                   | Inr ms \<Rightarrow> Inr (m # ms)))"

definition keeps :: "word_match list list \<Rightarrow> word_match \<Rightarrow> phrase_error + bool" where
  "keeps resultsPerWord r =
     (case collect_matches (wm_path r) resultsPerWord of
        Inl e \<Rightarrow> Inl e
      | Inr wordMatches \<Rightarrow> check (map (\<lambda>m. parse_occurs (wm_occurs m)) wordMatches))"

fun phrase_filter :: "word_match list list \<Rightarrow> word_match list \<Rightarrow> phrase_error + word_match list" where
  "phrase_filter resultsPerWord [] = Inr []"
| "phrase_filter resultsPerWord (r # rs) =
     (case keeps resultsPerWord r of
        Inl e \<Rightarrow> Inl e
      | Inr keep \<Rightarrow>
          (case phrase_filter resultsPerWord rs of
             Inl e \<Rightarrow> Inl e
           | Inr kept \<Rightarrow> Inr (if keep then r # kept else kept)))"

text \<open>
  \<^verbatim>\<open>TextInfo\<close>: the words of a text are the maximal runs of word characters (the regular
  expression \<^verbatim>\<open>[\w']+\<close>); every word is listed once with the positions (word counts from 0)
  at which it occurs. Lower-casing is left out: the texts below are lower case.
\<close>

definition is_word_char :: "char \<Rightarrow> bool" where
  "is_word_char c =
     (let n = (of_char c :: nat)
      in (48 \<le> n \<and> n \<le> 57) \<or> (65 \<le> n \<and> n \<le> 90) \<or> (97 \<le> n \<and> n \<le> 122)
         \<or> n = 95 \<or> n = 39)"

fun text_words :: "string \<Rightarrow> string \<Rightarrow> string list" where
  "text_words cur [] = (if cur = [] then [] else [cur])"
| "text_words cur (c # cs) =
     (if is_word_char c then text_words (cur @ [c]) cs
      else if cur = [] then text_words [] cs
      else cur # text_words [] cs)"

fun add_word :: "(string \<times> nat list) list \<Rightarrow> string \<Rightarrow> nat \<Rightarrow> (string \<times> nat list) list" where
  "add_word [] w i = [(w, [i])]"
| "add_word ((w', is) # rest) w i =
     (if w' = w then (w', is @ [i]) # rest else (w', is) # add_word rest w i)"

fun word_infos :: "(string \<times> nat list) list \<Rightarrow> nat \<Rightarrow> string list \<Rightarrow> (string \<times> nat list) list" where
  "word_infos acc wordIndex [] = acc"
| "word_infos acc wordIndex (w # ws) = word_infos (add_word acc w wordIndex) (wordIndex + 1) ws"

definition TextInfo :: "string \<Rightarrow> (string \<times> nat list) list" where
  "TextInfo text = word_infos [] 0 (text_words [] text)"

text \<open>\<^verbatim>\<open>indexes.join(',')\<close>, with the decimal digits of every number.\<close>

function decimal :: "nat \<Rightarrow> string" where
  "decimal n = (if n < 10 then [char_of (48 + n)] else decimal (n div 10) @ [char_of (48 + n mod 10)])"
  by pat_completeness auto
termination
  by (relation "measure id") auto

declare decimal.simps [simp del]

fun join_comma :: "string list \<Rightarrow> string" where
  "join_comma [] = []"
| "join_comma [s] = s"
| "join_comma (s # t # rest) = s @ '','' @ join_comma (t # rest)"

definition occurs_string :: "nat list \<Rightarrow> string" where
  "occurs_string indexes = join_comma (map decimal indexes)"

definition occurs_of :: "string \<Rightarrow> string \<Rightarrow> string option" where
  "occurs_of text w = map_option occurs_string (map_of (TextInfo text) w)"

text \<open>
  The claim's condition, on the positions themselves: some occurrence \<open>p\<close> of the first word
  is followed by the second word at \<open>p + 1\<close>, the third at \<open>p + 2\<close>, and so on.
\<close>

definition has_run :: "nat list list \<Rightarrow> bool" where
  "has_run positions =
     (positions \<noteq> [] \<and>
      list_ex (\<lambda>p. list_all (\<lambda>(k, ps). p + k \<in> set ps) (enumerate 0 positions)) (hd positions))"


lemma parse_occurs_example: "parse_occurs ''0,2'' = [Some 0, None]"
  by (simp add: parse_occurs_def map_parseInt_def parseInt_def is_space_def digit_value_def
      strip_hex_prefix_def Let_def)

lemma parse_occurs_example2: "parse_occurs ''0,5,10'' = [Some 0, None, Some 2]"
  by (simp add: parse_occurs_def map_parseInt_def parseInt_def is_space_def digit_value_def
      strip_hex_prefix_def Let_def)

lemma parse_occurs_single: "parse_occurs ''1'' = [Some 1]"
  by (simp add: parse_occurs_def map_parseInt_def parseInt_def is_space_def digit_value_def
      strip_hex_prefix_def Let_def)

lemma TextInfo_example:
  "TextInfo ''dear hello dear'' = [(''dear'', [0, 2]), (''hello'', [1])]"
  by (simp add: TextInfo_def is_word_char_def)

lemma TextInfo_example2:
  "TextInfo ''b a c c c b c c c c b'' = [(''b'', [0, 5, 10]), (''a'', [1]), (''c'', [2, 3, 4, 6, 7, 8, 9])]"
  by (simp add: TextInfo_def is_word_char_def)

lemma occurs_string_examples:
  "occurs_string [0, 2] = ''0,2''" "occurs_string [1] = ''1''" "occurs_string [0, 5, 10] = ''0,5,10''"
  by code_simp+

text \<open>
  C6. The claim: a record is kept exactly when the stored positions of the words contain a
  run that increases by 1 in the order of the phrase. The code parses the stored positions
  with the position in the list as the radix, and loses every position but the first of a
  word (or reads it in another base). The record \<open>dear hello dear\<close> contains the phrase
  \<open>hello dear\<close> at the positions 1 and 2 and is dropped; the record
  \<open>b a c c c b c c c c b\<close> does not contain the phrase \<open>a b\<close> and is kept.
\<close>

theorem phrase_check_loses_positions:
  "occurs_of ''dear hello dear'' ''hello'' = Some ''1''
   \<and> occurs_of ''dear hello dear'' ''dear'' = Some ''0,2''
   \<and> has_run [[1], [0, 2]]
   \<and> phrase_filter [[\<lparr>wm_path = ''messages/m1'', wm_occurs = ''1''\<rparr>],
                      [\<lparr>wm_path = ''messages/m1'', wm_occurs = ''0,2''\<rparr>]]
         [\<lparr>wm_path = ''messages/m1'', wm_occurs = ''0,2''\<rparr>] = Inr []
   \<and> occurs_of ''b a c c c b c c c c b'' ''a'' = Some ''1''
   \<and> occurs_of ''b a c c c b c c c c b'' ''b'' = Some ''0,5,10''
   \<and> \<not> has_run [[1], [0, 5, 10]]
   \<and> phrase_filter [[\<lparr>wm_path = ''messages/m2'', wm_occurs = ''1''\<rparr>],
                      [\<lparr>wm_path = ''messages/m2'', wm_occurs = ''0,5,10''\<rparr>]]
         [\<lparr>wm_path = ''messages/m2'', wm_occurs = ''0,5,10''\<rparr>]
       = Inr [\<lparr>wm_path = ''messages/m2'', wm_occurs = ''0,5,10''\<rparr>]"
proof -
  have o: "occurs_of ''dear hello dear'' ''hello'' = Some ''1''"
    "occurs_of ''dear hello dear'' ''dear'' = Some ''0,2''"
    using occurs_string_examples by (simp_all add: occurs_of_def TextInfo_example)
  have o2: "occurs_of ''b a c c c b c c c c b'' ''a'' = Some ''1''"
    "occurs_of ''b a c c c b c c c c b'' ''b'' = Some ''0,5,10''"
    using occurs_string_examples by (simp_all add: occurs_of_def TextInfo_example2)
  have r: "has_run [[1], [0, 2]]" "\<not> has_run [[1], [0, 5, 10]]"
    by (simp_all add: has_run_def)
  have f1: "phrase_filter [[\<lparr>wm_path = ''messages/m1'', wm_occurs = ''1''\<rparr>],
                      [\<lparr>wm_path = ''messages/m1'', wm_occurs = ''0,2''\<rparr>]]
         [\<lparr>wm_path = ''messages/m1'', wm_occurs = ''0,2''\<rparr>] = Inr []"
    by (simp add: keeps_def check_def parse_occurs_example parse_occurs_single
        js_includes_def js_succ_def)
  have f2: "phrase_filter [[\<lparr>wm_path = ''messages/m2'', wm_occurs = ''1''\<rparr>],
                      [\<lparr>wm_path = ''messages/m2'', wm_occurs = ''0,5,10''\<rparr>]]
         [\<lparr>wm_path = ''messages/m2'', wm_occurs = ''0,5,10''\<rparr>]
       = Inr [\<lparr>wm_path = ''messages/m2'', wm_occurs = ''0,5,10''\<rparr>]"
    by (simp add: keeps_def check_def parse_occurs_example2 parse_occurs_single
        js_includes_def js_succ_def)
  show ?thesis using o o2 r f1 f2 by blast
qed

section \<open>In-memory B+ tree: adding to a leaf\<close>

text \<open>
  Source: \<^verbatim>\<open>BPlusTreeLeaf.add\<close> (tree-leaf.js). Leaves and nodes are objects that point at each
  other, so the tree is a store: leaves and nodes live at addresses, \<^verbatim>\<open>new\<close> takes the next
  free address, and \<^verbatim>\<open>prevLeaf\<close>, \<^verbatim>\<open>nextLeaf\<close> and \<^verbatim>\<open>parent\<close> hold addresses. A leaf entry is
  its key with the list of its values. Three things the method uses are not in the sources
  given and are parameters: \<^verbatim>\<open>_checkNewEntryArgs\<close> (true when it returns an error),
  \<^verbatim>\<open>BPlusTreeNode.insertKey\<close>, and the key comparison \<^verbatim>\<open>_isEqual\<close> / \<^verbatim>\<open>_isMore\<close>, taken to be
  the equality and the order of a linear order on keys.
\<close>

type_synonym addr = nat

datatype child_ref = LeafRef addr | NodeRef addr

datatype parent_ref = TreeParent | NodeParent addr

record ('k, 'v) leaf =
  lf_entries :: "('k \<times> 'v list) list"
  prevLeaf :: "addr option"
  nextLeaf :: "addr option"
  lf_parent :: parent_ref

record 'k tree_node =
  nd_entries :: "('k \<times> child_ref) list"
  nd_gtChild :: "child_ref option"

record ('k, 'v) btree =
  leaves :: "addr \<Rightarrow> ('k, 'v) leaf option"
  nodes :: "addr \<Rightarrow> 'k tree_node option"
  tree_root :: child_ref
  tree_depth :: nat
  maxEntriesPerNode :: nat
  uniqueKeys :: bool
  next_leaf :: addr
  next_node :: addr

record ('k, 'v) leaf_env =
  checkNewEntryArgs :: "'k \<Rightarrow> 'v \<Rightarrow> bool"
  insertKey :: "addr \<Rightarrow> 'k \<Rightarrow> addr \<Rightarrow> addr \<Rightarrow> ('k, 'v) btree \<Rightarrow> ('k, 'v) btree"

datatype add_error = InvalidEntryArgs | DuplicateNodeKey | NoSuchLeaf | NoSplitKey

text \<open>\<^verbatim>\<open>Array.prototype.findIndex\<close>.\<close>

fun findIndex :: "('a \<Rightarrow> bool) \<Rightarrow> 'a list \<Rightarrow> nat option" where
  "findIndex P [] = None"
| "findIndex P (x # xs) = (if P x then Some 0 else map_option Suc (findIndex P xs))"

text \<open>\<^verbatim>\<open>entries.splice(insertIndex, 0, entry)\<close>.\<close>

definition splice_in :: "nat \<Rightarrow> 'a \<Rightarrow> 'a list \<Rightarrow> 'a list" where
  "splice_in i x xs = take i xs @ [x] @ drop i xs"

text \<open>\<^verbatim>\<open>Math.ceil(maxEntriesPerNode / 2)\<close>.\<close>

definition splitIndex :: "nat \<Rightarrow> nat" where
  "splitIndex m = (m + 1) div 2"

text \<open>
  The linked-list update at the end of both split branches:
  \<^verbatim>\<open>
  newLeaf.prevLeaf = this;
  if (this.nextLeaf) { newLeaf.nextLeaf = this.nextLeaf; newLeaf.nextLeaf.prevLeaf = newLeaf; }
  this.nextLeaf = newLeaf;
  \<close>
\<close>

definition upd_leaf ::
  "addr \<Rightarrow> (('k, 'v) leaf \<Rightarrow> ('k, 'v) leaf) \<Rightarrow> ('k, 'v) btree \<Rightarrow> ('k, 'v) btree" where
  "upd_leaf a f t =
     (case leaves t a of
        None \<Rightarrow> t
      | Some l \<Rightarrow> t\<lparr>leaves := (leaves t)(a \<mapsto> f l)\<rparr>)"

definition link_leaves :: "addr \<Rightarrow> addr \<Rightarrow> ('k, 'v) btree \<Rightarrow> ('k, 'v) btree" where
  "link_leaves this newLeaf t =
     (let t1 = upd_leaf newLeaf (\<lambda>l. l\<lparr>prevLeaf := Some this\<rparr>) t;
          t2 = (case Option.bind (leaves t1 this) nextLeaf of
                  None \<Rightarrow> t1
                | Some nxt \<Rightarrow>
                    upd_leaf nxt (\<lambda>l. l\<lparr>prevLeaf := Some newLeaf\<rparr>)
                      (upd_leaf newLeaf (\<lambda>l. l\<lparr>nextLeaf := Some nxt\<rparr>) t1))
      in upd_leaf this (\<lambda>l. l\<lparr>nextLeaf := Some newLeaf\<rparr>) t2)"

definition split_leaf ::
  "('k, 'v) leaf_env \<Rightarrow> addr \<Rightarrow> ('k, 'v) btree \<Rightarrow> add_error + ('k, 'v) btree" where
  "split_leaf env this t =
     (case leaves t this of
        None \<Rightarrow> Inl NoSuchLeaf
      | Some l \<Rightarrow>
          let keep = take (splitIndex (maxEntriesPerNode t)) (lf_entries l);
              moveEntries = drop (splitIndex (maxEntriesPerNode t)) (lf_entries l);
              newLeaf = next_leaf t
          in (case moveEntries of
                [] \<Rightarrow> Inl NoSplitKey
              | first_moved # others \<Rightarrow>
                  let copyUpKey = fst first_moved
                  in (case lf_parent l of
                        TreeParent \<Rightarrow>
                          let p = next_node t;
                              t1 = t\<lparr>nodes := (nodes t)
                                       (p \<mapsto> \<lparr>nd_entries = [(copyUpKey, LeafRef this)],
                                              nd_gtChild = Some (LeafRef newLeaf)\<rparr>),
                                     next_node := p + 1,
                                     tree_root := NodeRef p,
                                     tree_depth := 2,
                                     leaves := (leaves t)
                                       (this \<mapsto> l\<lparr>lf_entries := keep, lf_parent := NodeParent p\<rparr>,
                                        newLeaf \<mapsto> \<lparr>lf_entries = moveEntries, prevLeaf = None,
                                                     nextLeaf = None, lf_parent = NodeParent p\<rparr>),
                                     next_leaf := newLeaf + 1\<rparr>
                          in Inr (link_leaves this newLeaf t1)
                      | NodeParent p \<Rightarrow>
                          let t1 = t\<lparr>leaves := (leaves t)
                                       (this \<mapsto> l\<lparr>lf_entries := keep\<rparr>,
                                        newLeaf \<mapsto> \<lparr>lf_entries = moveEntries, prevLeaf = None,
                                                     nextLeaf = None, lf_parent = NodeParent p\<rparr>),
                                     next_leaf := newLeaf + 1\<rparr>;
                              t2 = insertKey env p copyUpKey this newLeaf t1
                          in Inr (link_leaves this newLeaf t2))))"

definition leaf_add ::
  "('k :: linorder, 'v) leaf_env \<Rightarrow> ('k, 'v) btree \<Rightarrow> addr \<Rightarrow> 'k \<Rightarrow> 'v
     \<Rightarrow> add_error + ('k, 'v) btree" where
  "leaf_add env t this key entryValue =
     (case leaves t this of
        None \<Rightarrow> Inl NoSuchLeaf
      | Some l \<Rightarrow>
          if checkNewEntryArgs env key entryValue then Inl InvalidEntryArgs
          else
            (case findIndex (\<lambda>entry. fst entry = key) (lf_entries l) of
               Some entryIndex \<Rightarrow>
                 if uniqueKeys t then Inl DuplicateNodeKey
                 else
                   let entry = lf_entries l ! entryIndex;
                       es = (lf_entries l)[entryIndex := (fst entry, snd entry @ [entryValue])]
                   in Inr (upd_leaf this (\<lambda>l. l\<lparr>lf_entries := es\<rparr>) t)
             | None \<Rightarrow>
                 let entry = (key, [entryValue])
                 in if length (lf_entries l) = 0
                    then Inr (upd_leaf this (\<lambda>l. l\<lparr>lf_entries := [entry]\<rparr>) t)
                    else
                      let es = (case findIndex (\<lambda>otherEntry. fst otherEntry > key) (lf_entries l) of
                                  None \<Rightarrow> lf_entries l @ [entry]
                                | Some insertIndex \<Rightarrow> splice_in insertIndex entry (lf_entries l));
                          t1 = upd_leaf this (\<lambda>l. l\<lparr>lf_entries := es\<rparr>) t
                      in if length es > maxEntriesPerNode t then split_leaf env this t1
                         else Inr t1))"

text \<open>
  The chain of leaves: the addresses met from \<open>p\<close> by following \<^verbatim>\<open>nextLeaf\<close> until \<open>q\<close>.
\<close>

fun is_seg :: "(addr \<Rightarrow> ('k, 'v) leaf option) \<Rightarrow> addr option \<Rightarrow> addr list \<Rightarrow> addr option \<Rightarrow> bool" where
  "is_seg h p [] q = (p = q)"
| "is_seg h p (a # as) q =
     (p = Some a \<and> (case h a of None \<Rightarrow> False | Some l \<Rightarrow> is_seg h (nextLeaf l) as q))"

definition is_chain :: "(addr \<Rightarrow> ('k, 'v) leaf option) \<Rightarrow> addr \<Rightarrow> addr list \<Rightarrow> bool" where
  "is_chain h first as = (is_seg h (Some first) as None \<and> distinct as)"

definition leaf_keys :: "(addr \<Rightarrow> ('k, 'v) leaf option) \<Rightarrow> addr \<Rightarrow> 'k list" where
  "leaf_keys h a = (case h a of None \<Rightarrow> [] | Some l \<Rightarrow> map fst (lf_entries l))"

definition chain_keys :: "(addr \<Rightarrow> ('k, 'v) leaf option) \<Rightarrow> addr list \<Rightarrow> 'k list" where
  "chain_keys h as = concat (map (leaf_keys h) as)"

text \<open>
  The property of the claim, for the leaves \<open>as\<close> of a chain: the keys of every leaf are
  strictly ascending, and the last key of a leaf is below the first key of the next leaf.
\<close>

fun leaves_ordered :: "'k :: linorder list list \<Rightarrow> bool" where
  "leaves_ordered [] = True"
| "leaves_ordered [ks] = sorted_wrt (<) ks"
| "leaves_ordered (ks # ks' # rest) =
     (sorted_wrt (<) ks \<and> (ks \<noteq> [] \<and> ks' \<noteq> [] \<longrightarrow> last ks < hd ks')
      \<and> leaves_ordered (ks' # rest))"

definition chain_ordered :: "(addr \<Rightarrow> ('k :: linorder, 'v) leaf option) \<Rightarrow> addr list \<Rightarrow> bool" where
  "chain_ordered h as = leaves_ordered (map (leaf_keys h) as)"

text \<open>
  The invariant that adding preserves: \<open>as\<close> is the chain from \<open>first\<close>, its keys are strictly
  ascending along the whole chain, and every address at or after \<open>next_leaf\<close> is free.
\<close>

definition leaf_inv :: "('k :: linorder, 'v) btree \<Rightarrow> addr \<Rightarrow> addr list \<Rightarrow> bool" where
  "leaf_inv t first as =
     (is_chain (leaves t) first as
      \<and> sorted_wrt (<) (chain_keys (leaves t) as)
      \<and> (\<forall>b. next_leaf t \<le> b \<longrightarrow> leaves t b = None))"

text \<open>
  The key belongs to the leaf: it is above every key of the leaves before the leaf in the
  chain and below every key of the leaves after it. This is what finding the leaf through
  the routing keys of the tree gives.
\<close>

definition routed :: "('k :: linorder, 'v) btree \<Rightarrow> addr \<Rightarrow> addr \<Rightarrow> 'k \<Rightarrow> bool" where
  "routed t first this key =
     (\<exists>before after.
        is_chain (leaves t) first (before @ this # after)
        \<and> (\<forall>x \<in> set (chain_keys (leaves t) before). x < key)
        \<and> (\<forall>x \<in> set (chain_keys (leaves t) after). key < x))"

text \<open>What \<^verbatim>\<open>insertKey\<close> is assumed to leave alone: the entries and the links of every leaf.\<close>

definition leaf_core :: "('k, 'v) leaf \<Rightarrow> ('k \<times> 'v list) list \<times> addr option \<times> addr option" where
  "leaf_core l = (lf_entries l, prevLeaf l, nextLeaf l)"

definition keeps_leaves :: "('k, 'v) leaf_env \<Rightarrow> bool" where
  "keeps_leaves env =
     (\<forall>p k a b t. next_leaf (insertKey env p k a b t) = next_leaf t
        \<and> (\<forall>c. map_option leaf_core (leaves (insertKey env p k a b t) c)
                 = map_option leaf_core (leaves t c)))"

text \<open>A sequence of additions, each to some leaf; it stops at the first error.\<close>

fun adds ::
  "('k :: linorder, 'v) leaf_env \<Rightarrow> ('k, 'v) btree \<Rightarrow> (addr \<times> 'k \<times> 'v) list
     \<Rightarrow> add_error + ('k, 'v) btree" where
  "adds env t [] = Inr t"
| "adds env t ((this, key, v) # ops) =
     (case leaf_add env t this key v of
        Inl e \<Rightarrow> Inl e
      | Inr t' \<Rightarrow> adds env t' ops)"

fun all_routed ::
  "('k :: linorder, 'v) leaf_env \<Rightarrow> addr \<Rightarrow> ('k, 'v) btree \<Rightarrow> (addr \<times> 'k \<times> 'v) list \<Rightarrow> bool" where
  "all_routed env first t [] = True"
| "all_routed env first t ((this, key, v) # ops) =
     (routed t first this key
      \<and> (case leaf_add env t this key v of
            Inl e \<Rightarrow> True
          | Inr t' \<Rightarrow> all_routed env first t' ops))"


subsection \<open>Lists\<close>

lemma findIndex_None: "findIndex P xs = None \<longleftrightarrow> (\<forall>x \<in> set xs. \<not> P x)"
  by (induction xs) auto

lemma findIndex_Some:
  "findIndex P xs = Some i \<Longrightarrow> i < length xs \<and> P (xs ! i)"
  by (induction xs arbitrary: i) (auto split: if_splits)

lemma insert_at_findIndex:
  "(case findIndex P xs of None \<Rightarrow> xs @ [x] | Some i \<Rightarrow> splice_in i x xs)
     = takeWhile (\<lambda>y. \<not> P y) xs @ x # dropWhile (\<lambda>y. \<not> P y) xs"
proof (induction xs)
  case Nil
  then show ?case by simp
next
  case (Cons y ys)
  then show ?case
    by (cases "findIndex P ys") (auto simp: splice_in_def)
qed

lemma sorted_insert_key:
  fixes key :: "'k :: linorder"
  assumes "sorted_wrt (<) (map fst es)" "key \<notin> fst ` set es"
  shows "sorted_wrt (<) (map fst (takeWhile (\<lambda>e. \<not> key < fst e) es @ (key, vs)
           # dropWhile (\<lambda>e. \<not> key < fst e) es))"
  using assms
proof (induction es)
  case Nil
  then show ?case by simp
next
  case (Cons e es)
  show ?case
  proof (cases "key < fst e")
    case True
    then have "\<forall>x \<in> set es. key < fst x"
      using Cons.prems(1) by auto
    then show ?thesis using True Cons.prems by auto
  next
    case False
    then have lt: "fst e < key" using Cons.prems(2) by auto
    have ih: "sorted_wrt (<) (map fst (takeWhile (\<lambda>e. \<not> key < fst e) es @ (key, vs)
           # dropWhile (\<lambda>e. \<not> key < fst e) es))"
      using Cons by simp
    have "\<forall>x \<in> set (takeWhile (\<lambda>e. \<not> key < fst e) es @ (key, vs)
           # dropWhile (\<lambda>e. \<not> key < fst e) es). fst e < fst x"
      using Cons.prems(1) lt by (auto dest: set_takeWhileD set_dropWhileD)
    then show ?thesis using False ih by auto
  qed
qed

lemma set_insert_key:
  "set (takeWhile P es @ x # dropWhile P es) = insert x (set es)"
proof -
  have "set (takeWhile P es) \<union> set (dropWhile P es) = set es"
    by (metis set_append takeWhile_dropWhile_id)
  then show ?thesis by auto
qed

lemma sorted_middle_replace:
  fixes key :: "'k :: linorder"
  assumes "sorted_wrt (<) (B @ K @ A)" "sorted_wrt (<) K'" "set K' = insert key (set K)"
    "\<forall>b \<in> set B. b < key" "\<forall>a \<in> set A. key < a"
  shows "sorted_wrt (<) (B @ K' @ A)"
  using assms by (auto simp: sorted_wrt_append)

lemma leaves_ordered_concat:
  "sorted_wrt (<) (concat kss) \<Longrightarrow> leaves_ordered kss"
proof (induction kss rule: leaves_ordered.induct)
  case 1
  then show ?case by simp
next
  case (2 ks)
  then show ?case by simp
next
  case (3 ks ks' rest)
  then show ?case
    by (auto simp: sorted_wrt_append)
qed


subsection \<open>The store\<close>

lemma is_seg_cong:
  "(\<And>a. a \<in> set as \<Longrightarrow> map_option nextLeaf (h a) = map_option nextLeaf (h' a)) \<Longrightarrow>
   is_seg h p as q = is_seg h' p as q"
proof (induction as arbitrary: p)
  case Nil
  then show ?case by simp
next
  case (Cons a as)
  have "map_option nextLeaf (h a) = map_option nextLeaf (h' a)"
    using Cons.prems by simp
  moreover have "\<And>r. is_seg h r as q = is_seg h' r as q"
    using Cons by simp
  ultimately show ?case
    by (cases "h a"; cases "h' a") auto
qed

lemma is_seg_append:
  "is_seg h p (xs @ ys) q \<longleftrightarrow> (\<exists>r. is_seg h p xs r \<and> is_seg h r ys q)"
  by (induction xs arbitrary: p) (auto split: option.splits)

lemma is_seg_unique:
  "is_seg h p as None \<Longrightarrow> is_seg h p bs None \<Longrightarrow> as = bs"
proof (induction as arbitrary: p bs)
  case Nil
  then show ?case by (cases bs) auto
next
  case (Cons a as)
  then show ?case by (cases bs) (auto split: option.splits)
qed

lemma chain_keys_cong:
  "(\<And>a. a \<in> set as \<Longrightarrow> leaf_keys h a = leaf_keys h' a) \<Longrightarrow> chain_keys h as = chain_keys h' as"
  by (simp add: chain_keys_def cong: map_cong)

lemma chain_keys_append [simp]:
  "chain_keys h (xs @ ys) = chain_keys h xs @ chain_keys h ys"
  by (simp add: chain_keys_def)

lemma chain_keys_Cons [simp]:
  "chain_keys h (a # as) = leaf_keys h a @ chain_keys h as"
  by (simp add: chain_keys_def)

lemma chain_keys_Nil [simp]: "chain_keys h [] = []"
  by (simp add: chain_keys_def)

lemma is_seg_allocated:
  "is_seg h p as q \<Longrightarrow> a \<in> set as \<Longrightarrow> h a \<noteq> None"
  by (induction as arbitrary: p) (auto split: option.splits)

lemma leaves_upd_leaf:
  "leaves t a = Some l \<Longrightarrow> leaves (upd_leaf a f t) = (leaves t)(a \<mapsto> f l)"
  by (simp add: upd_leaf_def)

lemma next_leaf_upd_leaf [simp]: "next_leaf (upd_leaf a f t) = next_leaf t"
  by (simp add: upd_leaf_def split: option.splits)

lemma max_upd_leaf [simp]: "maxEntriesPerNode (upd_leaf a f t) = maxEntriesPerNode t"
  by (simp add: upd_leaf_def split: option.splits)

text \<open>What \<open>link_leaves\<close> does to the links, the entries and the allocation.\<close>

lemma link_leaves_effect:
  assumes "leaves t this = Some la" "leaves t n = Some lb" "this \<noteq> n"
  shows "map_option nextLeaf (leaves (link_leaves this n t) c) =
           (if c = this then Some (Some n)
            else if c = n then Some (case nextLeaf la of None \<Rightarrow> nextLeaf lb | Some x \<Rightarrow> Some x)
            else map_option nextLeaf (leaves t c))"
    and "map_option lf_entries (leaves (link_leaves this n t) c) = map_option lf_entries (leaves t c)"
    and "leaves (link_leaves this n t) c = None \<longleftrightarrow> leaves t c = None"
    and "next_leaf (link_leaves this n t) = next_leaf t"
  using assms
  by (auto simp: link_leaves_def upd_leaf_def Let_def split: option.splits if_splits)


lemma leaf_core_eq:
  "map_option leaf_core x = map_option leaf_core y \<Longrightarrow>
   map_option nextLeaf x = map_option nextLeaf y
   \<and> map_option lf_entries x = map_option lf_entries y
   \<and> (x = None \<longleftrightarrow> y = None)"
  by (cases x; cases y) (auto simp: leaf_core_def)

lemma split_leaf_effect:
  assumes env: "keeps_leaves env"
    and lthis: "leaves t1 this = Some l1"
    and fresh: "leaves t1 (next_leaf t1) = None"
    and res: "split_leaf env this t1 = Inr t'"
  shows "map_option nextLeaf (leaves t' c) =
           (if c = this then Some (Some (next_leaf t1))
            else if c = next_leaf t1 then Some (nextLeaf l1)
            else map_option nextLeaf (leaves t1 c))"
    and "map_option lf_entries (leaves t' c) =
           (if c = this then Some (take (splitIndex (maxEntriesPerNode t1)) (lf_entries l1))
            else if c = next_leaf t1 then Some (drop (splitIndex (maxEntriesPerNode t1)) (lf_entries l1))
            else map_option lf_entries (leaves t1 c))"
    and "leaves t' c = None \<longleftrightarrow> (c \<noteq> next_leaf t1 \<and> leaves t1 c = None)"
    and "next_leaf t' = next_leaf t1 + 1"
proof -
  define n where "n = next_leaf t1"
  define keep where "keep = take (splitIndex (maxEntriesPerNode t1)) (lf_entries l1)"
  define move where "move = drop (splitIndex (maxEntriesPerNode t1)) (lf_entries l1)"
  have ne: "this \<noteq> n" using lthis fresh by (auto simp: n_def)
  have "\<exists>tm. t' = link_leaves this n tm \<and> next_leaf tm = n + 1
          \<and> (\<forall>c. map_option leaf_core (leaves tm c) =
                (if c = this then Some (keep, prevLeaf l1, nextLeaf l1)
                 else if c = n then Some (move, None, None)
                 else map_option leaf_core (leaves t1 c)))"
  proof (cases "lf_parent l1")
    case TreeParent
    then show ?thesis
      using res lthis ne
      by (auto simp: split_leaf_def Let_def n_def keep_def move_def leaf_core_def
          split: list.splits intro!: exI)
  next
    case (NodeParent p)
    from res lthis NodeParent obtain m ms where mv: "move = m # ms"
      by (auto simp: split_leaf_def Let_def move_def split: list.splits)
    define ta where "ta = t1\<lparr>leaves := (leaves t1)
         (this \<mapsto> l1\<lparr>lf_entries := keep\<rparr>,
          n \<mapsto> \<lparr>lf_entries = move, prevLeaf = None, nextLeaf = None, lf_parent = NodeParent p\<rparr>),
          next_leaf := n + 1\<rparr>"
    define tm where "tm = insertKey env p (fst m) this n ta"
    have t': "t' = link_leaves this n tm"
      using res lthis NodeParent mv
      by (simp add: split_leaf_def Let_def tm_def ta_def n_def keep_def [symmetric] move_def [symmetric])
    have fr: "next_leaf tm = next_leaf ta"
      "\<And>c. map_option leaf_core (leaves tm c) = map_option leaf_core (leaves ta c)"
      using env unfolding keeps_leaves_def tm_def by blast+
    have "\<And>c. map_option leaf_core (leaves ta c) =
                (if c = this then Some (keep, prevLeaf l1, nextLeaf l1)
                 else if c = n then Some (move, None, None)
                 else map_option leaf_core (leaves t1 c))"
      using ne by (simp add: ta_def leaf_core_def)
    then show ?thesis
      using t' fr by (intro exI [of _ tm]) (simp add: ta_def)
  qed
  then obtain tm where t': "t' = link_leaves this n tm" and nl: "next_leaf tm = n + 1"
    and core: "\<And>c. map_option leaf_core (leaves tm c) =
                (if c = this then Some (keep, prevLeaf l1, nextLeaf l1)
                 else if c = n then Some (move, None, None)
                 else map_option leaf_core (leaves t1 c))"
    by blast
  from core [of this] obtain la where la: "leaves tm this = Some la"
    "lf_entries la = keep" "nextLeaf la = nextLeaf l1"
    by (auto simp: leaf_core_def)
  from core [of n] ne obtain lb where lb: "leaves tm n = Some lb"
    "lf_entries lb = move" "nextLeaf lb = None"
    by (auto simp: leaf_core_def)
  have other: "map_option nextLeaf (leaves tm c) = map_option nextLeaf (leaves t1 c)
      \<and> map_option lf_entries (leaves tm c) = map_option lf_entries (leaves t1 c)
      \<and> (leaves tm c = None \<longleftrightarrow> leaves t1 c = None)"
    if "c \<noteq> this" "c \<noteq> n" for c
    using core [of c] that by (intro leaf_core_eq) simp
  note eff = link_leaves_effect [OF la(1) lb(1) ne]
  show "map_option nextLeaf (leaves t' c) =
           (if c = this then Some (Some (next_leaf t1))
            else if c = next_leaf t1 then Some (nextLeaf l1)
            else map_option nextLeaf (leaves t1 c))"
    unfolding t' eff(1) using la lb other [of c]
    by (auto simp: n_def split: option.splits)
  show "map_option lf_entries (leaves t' c) =
           (if c = this then Some (take (splitIndex (maxEntriesPerNode t1)) (lf_entries l1))
            else if c = next_leaf t1 then Some (drop (splitIndex (maxEntriesPerNode t1)) (lf_entries l1))
            else map_option lf_entries (leaves t1 c))"
    unfolding t' eff(2) using la lb other [of c]
    by (auto simp: n_def keep_def move_def)
  show "leaves t' c = None \<longleftrightarrow> (c \<noteq> next_leaf t1 \<and> leaves t1 c = None)"
  proof (cases "c = this \<or> c = n")
    case True
    then show ?thesis
      unfolding t' eff(3) using la(1) lb(1) lthis fresh by (auto simp: n_def)
  next
    case False
    then have "leaves tm c = None \<longleftrightarrow> leaves t1 c = None"
      using other [of c] by blast
    then show ?thesis
      unfolding t' eff(3) using False by (simp add: n_def)
  qed
  show "next_leaf t' = next_leaf t1 + 1"
    unfolding t' eff(4) using nl by (simp add: n_def)
qed


lemma leaf_keys_entries:
  "leaf_keys h a = (case map_option lf_entries (h a) of None \<Rightarrow> [] | Some es \<Rightarrow> map fst es)"
  by (simp add: leaf_keys_def split: option.splits)

lemma leaf_keys_same:
  "map_option lf_entries (h' a) = map_option lf_entries (h a) \<Longrightarrow> leaf_keys h' a = leaf_keys h a"
  by (simp add: leaf_keys_entries)

text \<open>Replacing the entries of one leaf of the chain, without a split.\<close>

lemma leaf_inv_update:
  fixes key :: "'k :: linorder"
  assumes seg: "is_seg (leaves t) (Some first) (before @ this # after) None"
    and dist: "distinct (before @ this # after)"
    and alloc: "\<forall>b. next_leaf t \<le> b \<longrightarrow> leaves t b = None"
    and l: "leaves t this = Some l"
    and sorted': "sorted_wrt (<) (chain_keys (leaves t) before @ map fst es'
                    @ chain_keys (leaves t) after)"
  shows "leaf_inv (upd_leaf this (\<lambda>l. l\<lparr>lf_entries := es'\<rparr>) t) first (before @ this # after)"
proof -
  let ?t' = "upd_leaf this (\<lambda>l. l\<lparr>lf_entries := es'\<rparr>) t"
  have h': "leaves ?t' = (leaves t)(this \<mapsto> l\<lparr>lf_entries := es'\<rparr>)"
    using l by (rule leaves_upd_leaf)
  have nx: "map_option nextLeaf (leaves ?t' a) = map_option nextLeaf (leaves t a)" for a
    using l by (simp add: h')
  have "is_seg (leaves ?t') (Some first) (before @ this # after) None"
    using seg is_seg_cong [of "before @ this # after" "leaves ?t'" "leaves t" "Some first" None] nx
    by blast
  moreover have "chain_keys (leaves ?t') before = chain_keys (leaves t) before"
    using dist by (intro chain_keys_cong) (auto simp: h' leaf_keys_def)
  moreover have "chain_keys (leaves ?t') after = chain_keys (leaves t) after"
    using dist by (intro chain_keys_cong) (auto simp: h' leaf_keys_def)
  moreover have "leaf_keys (leaves ?t') this = map fst es'"
    by (simp add: h' leaf_keys_def)
  moreover have "\<forall>b. next_leaf ?t' \<le> b \<longrightarrow> leaves ?t' b = None"
    using alloc l by (auto simp: h')
  ultimately show ?thesis
    using dist sorted' by (simp add: leaf_inv_def is_chain_def)
qed

text \<open>One addition to the leaf that owns the key keeps the invariant.\<close>

lemma leaf_add_inv:
  fixes key :: "'k :: linorder"
  assumes env: "keeps_leaves env"
    and inv: "leaf_inv t first as"
    and rt: "routed t first this key"
    and res: "leaf_add env t this key v = Inr t'"
  shows "\<exists>as'. leaf_inv t' first as'"
proof -
  from rt obtain before after where
    seg: "is_seg (leaves t) (Some first) (before @ this # after) None"
    and dist: "distinct (before @ this # after)"
    and lo: "\<forall>x \<in> set (chain_keys (leaves t) before). x < key"
    and hi: "\<forall>x \<in> set (chain_keys (leaves t) after). key < x"
    by (auto simp: routed_def is_chain_def)
  from inv have "is_seg (leaves t) (Some first) as None"
    and alloc: "\<forall>b. next_leaf t \<le> b \<longrightarrow> leaves t b = None"
    and srt: "sorted_wrt (<) (chain_keys (leaves t) as)"
    by (auto simp: leaf_inv_def is_chain_def)
  with seg have as: "as = before @ this # after"
    by (blast intro: is_seg_unique)
  from is_seg_allocated [OF seg, of this] obtain l where l: "leaves t this = Some l"
    by auto
  define es where "es = lf_entries l"
  have K: "leaf_keys (leaves t) this = map fst es"
    by (simp add: leaf_keys_def l es_def)
  have srt0: "sorted_wrt (<) (chain_keys (leaves t) before @ map fst es
                @ chain_keys (leaves t) after)"
    using srt by (simp add: as K)
  show ?thesis
  proof (cases "findIndex (\<lambda>entry. fst entry = key) es")
    case (Some i)
    with res l have t': "t' = upd_leaf this (\<lambda>l. l\<lparr>lf_entries := es[i := (fst (es ! i), snd (es ! i) @ [v])]\<rparr>) t"
      by (auto simp: leaf_add_def es_def Let_def split: if_splits)
    have "map fst (es[i := (fst (es ! i), snd (es ! i) @ [v])]) = map fst es"
      by (simp add: map_update list_update_same_conv) (metis list_update_id map_update)
    with srt0 have "leaf_inv t' first (before @ this # after)"
      unfolding t' by (intro leaf_inv_update [OF seg dist alloc l]) simp
    then show ?thesis by blast
  next
    case None
    then have notin: "key \<notin> fst ` set es"
      by (auto simp: findIndex_None)
    define es' where "es' = takeWhile (\<lambda>e. \<not> key < fst e) es @ (key, [v])
                              # dropWhile (\<lambda>e. \<not> key < fst e) es"
    have es'_alt: "(case findIndex (\<lambda>otherEntry. fst otherEntry > key) (lf_entries l) of
                      None \<Rightarrow> lf_entries l @ [(key, [v])]
                    | Some insertIndex \<Rightarrow> splice_in insertIndex (key, [v]) (lf_entries l)) = es'"
      unfolding es'_def es_def by (rule insert_at_findIndex)
    note None' = None [unfolded es_def]
    have es'_nil: "es = [] \<Longrightarrow> es' = [(key, [v])]"
      by (simp add: es'_def)
    have s1: "sorted_wrt (<) (map fst es')"
      unfolding es'_def using srt0 notin
      by (intro sorted_insert_key) (auto simp: sorted_wrt_append)
    have s2: "set (map fst es') = insert key (set (map fst es))"
      unfolding es'_def by (simp only: set_map set_insert_key) simp
    have srt1: "sorted_wrt (<) (chain_keys (leaves t) before @ map fst es'
                  @ chain_keys (leaves t) after)"
      using srt0 s1 s2 lo hi by (rule sorted_middle_replace)
    define t1 where "t1 = upd_leaf this (\<lambda>l. l\<lparr>lf_entries := es'\<rparr>) t"
    have inv1: "leaf_inv t1 first (before @ this # after)"
      unfolding t1_def using srt1 by (intro leaf_inv_update [OF seg dist alloc l])
    have h1: "leaves t1 = (leaves t)(this \<mapsto> l\<lparr>lf_entries := es'\<rparr>)"
      unfolding t1_def using l by (rule leaves_upd_leaf)
    show ?thesis
    proof (cases "es \<noteq> [] \<and> length es' > maxEntriesPerNode t")
      case False
      with res l None' have "t' = t1"
        by (auto simp: leaf_add_def es_def Let_def es'_alt es'_nil t1_def
            split: if_splits)
      with inv1 show ?thesis by blast
    next
      case True
      with res l None' have sp: "split_leaf env this t1 = Inr t'"
        by (auto simp: leaf_add_def es_def Let_def es'_alt t1_def
            split: if_splits)
      define n where "n = next_leaf t1"
      define sidx where "sidx = splitIndex (maxEntriesPerNode t1)"
      have n_t: "n = next_leaf t" by (simp add: n_def t1_def)
      have l1: "leaves t1 this = Some (l\<lparr>lf_entries := es'\<rparr>)"
        by (simp add: h1)
      have "next_leaf t \<noteq> this" using alloc l by auto
      then have fresh: "leaves t1 (next_leaf t1) = None"
        using alloc n_t by (simp add: h1 n_def [symmetric])
      note eff = split_leaf_effect [OF env l1 fresh sp, folded n_def sidx_def]
      have alloc_in: "leaves t a \<noteq> None" if "a \<in> set (before @ this # after)" for a
        using is_seg_allocated [OF seg that] .
      have "leaves t n = None" using alloc n_t by simp
      then have n_new: "n \<notin> set (before @ this # after)"
        using alloc_in [of n] by blast
      have nx_other: "map_option nextLeaf (leaves t' a) = map_option nextLeaf (leaves t a)"
        if "a \<in> set before \<union> set after" for a
        using that dist n_new eff(1) [of a] by (auto simp: h1)
      have en_other: "leaf_keys (leaves t') a = leaf_keys (leaves t) a"
        if "a \<in> set before \<union> set after" for a
        using that dist n_new eff(2) [of a] by (intro leaf_keys_same) (auto simp: h1)
      from seg obtain r where r1: "is_seg (leaves t) (Some first) before r"
        and r2: "is_seg (leaves t) r (this # after) None"
        unfolding is_seg_append by blast
      from r2 l have r: "r = Some this" and r3: "is_seg (leaves t) (nextLeaf l) after None"
        by auto
      have b': "is_seg (leaves t') (Some first) before (Some this)"
        using r1 r is_seg_cong [of before "leaves t'" "leaves t" "Some first" r] nx_other
        by auto
      have a': "is_seg (leaves t') (nextLeaf l) after None"
        using r3 is_seg_cong [of after "leaves t'" "leaves t" "nextLeaf l" None] nx_other
        by auto
      from eff(1) [of this] obtain la where la: "leaves t' this = Some la" "nextLeaf la = Some n"
        by auto
      from eff(1) [of n] n_new obtain lb where lb: "leaves t' n = Some lb" "nextLeaf lb = nextLeaf l"
        by auto
      have seg': "is_seg (leaves t') (Some first) (before @ this # n # after) None"
        unfolding is_seg_append using b' a' la lb by auto
      have dist': "distinct (before @ this # n # after)"
        using dist n_new by auto
      have k_this: "leaf_keys (leaves t') this = map fst (take sidx es')"
        using eff(2) [of this] by (auto simp: leaf_keys_def)
      have k_n: "leaf_keys (leaves t') n = map fst (drop sidx es')"
        using eff(2) [of n] n_new by (auto simp: leaf_keys_def)
      have "chain_keys (leaves t') before = chain_keys (leaves t) before"
        using en_other by (intro chain_keys_cong) simp
      moreover have "chain_keys (leaves t') after = chain_keys (leaves t) after"
        using en_other by (intro chain_keys_cong) simp
      moreover have "map fst (take sidx es') @ map fst (drop sidx es') = map fst es'"
        by (metis append_take_drop_id map_append)
      ultimately have keys': "chain_keys (leaves t') (before @ this # n # after)
          = chain_keys (leaves t) before @ map fst es' @ chain_keys (leaves t) after"
        using k_this k_n by simp
      have alloc': "\<forall>b. next_leaf t' \<le> b \<longrightarrow> leaves t' b = None"
        using eff(3) eff(4) alloc l n_t by (auto simp: h1)
      have "leaf_inv t' first (before @ this # n # after)"
        unfolding leaf_inv_def is_chain_def keys' using seg' dist' srt1 alloc' by blast
      then show ?thesis by blast
    qed
  qed
qed


text \<open>
  C2, as the code has it. Start from a tree whose leaf chain is strictly ascending (a new
  tree, with its one empty leaf, is one). After every sequence of additions, each made to the
  leaf that owns the key, the keys of every leaf are strictly ascending and the last key of
  every leaf is below the first key of the next leaf of the chain; leaf splits are included.
\<close>

theorem leaf_adds_keep_order:
  fixes t :: "('k :: linorder, 'v) btree"
  assumes "keeps_leaves env" "leaf_inv t first as" "all_routed env first t ops"
    "adds env t ops = Inr t'"
  shows "\<exists>as'. is_chain (leaves t') first as' \<and> chain_ordered (leaves t') as'"
proof -
  have "\<exists>as'. leaf_inv t' first as'"
    using assms(2-4)
  proof (induction ops arbitrary: t as)
    case Nil
    then show ?case by auto
  next
    case (Cons op ops)
    obtain this key v where op: "op = (this, key, v)" by (cases op)
    from Cons.prems(3) op obtain t1 where
      t1: "leaf_add env t this key v = Inr t1" and rest: "adds env t1 ops = Inr t'"
      by (auto split: sum.splits)
    from Cons.prems(2) op t1 have rt: "routed t first this key"
      and rts: "all_routed env first t1 ops"
      by auto
    from leaf_add_inv [OF assms(1) Cons.prems(1) rt t1] obtain as1 where "leaf_inv t1 first as1" ..
    from Cons.IH [OF this rts rest] show ?case .
  qed
  then obtain as' where "leaf_inv t' first as'" ..
  then have "is_chain (leaves t') first as'" "sorted_wrt (<) (chain_keys (leaves t') as')"
    by (simp_all add: leaf_inv_def)
  then show ?thesis
    unfolding chain_ordered_def chain_keys_def by (blast intro: leaves_ordered_concat)
qed

definition example_leaf_env :: "(nat, unit) leaf_env" where
  "example_leaf_env = \<lparr>checkNewEntryArgs = (\<lambda>k v. False), insertKey = (\<lambda>p k a b t. t)\<rparr>"

definition new_tree :: "nat \<Rightarrow> (nat, unit) btree" where
  "new_tree m =
     \<lparr>leaves = [0 \<mapsto> \<lparr>lf_entries = [], prevLeaf = None, nextLeaf = None, lf_parent = TreeParent\<rparr>],
      nodes = Map.empty, tree_root = LeafRef 0, tree_depth = 1, maxEntriesPerNode = m,
      uniqueKeys = False, next_leaf = 1, next_node = 0\<rparr>"

lemma routed_single:
  "leaves t a \<noteq> None \<Longrightarrow> Option.bind (leaves t a) nextLeaf = None \<Longrightarrow> routed t a a key"
  unfolding routed_def
  by (intro exI [of _ "[]"]) (auto simp: is_chain_def)

lemma example_env_keeps: "keeps_leaves example_leaf_env"
  by (simp add: keeps_leaves_def example_leaf_env_def)

lemma new_tree_inv: "leaf_inv (new_tree m) 0 [0]"
  by (simp add: leaf_inv_def new_tree_def is_chain_def leaf_keys_def)

lemma example_adds_routed:
  "all_routed example_leaf_env 0 (new_tree 3) [(0, 1, ()), (0, 2, ()), (0, 3, ()), (0, 4, ())]"
  by (simp add: leaf_add_def new_tree_def example_leaf_env_def upd_leaf_def routed_single
      splice_in_def Let_def split: sum.splits)

lemma example_adds_result:
  "\<exists>t'. adds example_leaf_env (new_tree 3) [(0, 1, ()), (0, 2, ()), (0, 3, ()), (0, 4, ())] = Inr t'
     \<and> leaf_keys (leaves t') 0 = [1, 2] \<and> leaf_keys (leaves t') 1 = [3, 4]"
  by (simp add: leaf_add_def new_tree_def example_leaf_env_def upd_leaf_def split_leaf_def
      link_leaves_def splitIndex_def splice_in_def leaf_keys_def Let_def)


theorem leaf_adds_keep_order_witness:
  "keeps_leaves example_leaf_env
   \<and> leaf_inv (new_tree 3) 0 [0]
   \<and> all_routed example_leaf_env 0 (new_tree 3) [(0, 1, ()), (0, 2, ()), (0, 3, ()), (0, 4, ())]
   \<and> (\<exists>t'. adds example_leaf_env (new_tree 3) [(0, 1, ()), (0, 2, ()), (0, 3, ()), (0, 4, ())] = Inr t'
          \<and> leaf_keys (leaves t') 0 = [1, 2] \<and> leaf_keys (leaves t') 1 = [3, 4]
          \<and> (\<exists>as'. is_chain (leaves t') 0 as' \<and> chain_ordered (leaves t') as'))"
proof -
  from example_adds_result obtain t' where
    r: "adds example_leaf_env (new_tree 3) [(0, 1, ()), (0, 2, ()), (0, 3, ()), (0, 4, ())] = Inr t'"
    and k: "leaf_keys (leaves t') 0 = [1, 2]" "leaf_keys (leaves t') 1 = [3, 4]"
    by blast
  from leaf_adds_keep_order [OF example_env_keeps new_tree_inv example_adds_routed r]
  have "\<exists>as'. is_chain (leaves t') 0 as' \<and> chain_ordered (leaves t') as'" .
  with r k example_env_keeps new_tree_inv [of 3] example_adds_routed show ?thesis
    by blast
qed

lemma example_unrouted_result:
  "\<exists>t'. adds example_leaf_env (new_tree 3)
           [(0, 1, ()), (0, 2, ()), (0, 3, ()), (0, 4, ()), (0, 5, ())] = Inr t'
     \<and> is_seg (leaves t') (Some 0) [0, 1] None
     \<and> leaf_keys (leaves t') 0 = [1, 2, 5] \<and> leaf_keys (leaves t') 1 = [3, 4]"
  by (simp add: leaf_add_def new_tree_def example_leaf_env_def upd_leaf_def split_leaf_def
      link_leaves_def splitIndex_def splice_in_def leaf_keys_def Let_def)

text \<open>
  The claim as stated puts no condition on the keys. Adding 1, 2, 3, 4 and then 5 to the first
  leaf of a tree of at most 3 entries per node splits the leaf after the fourth addition
  and then puts 5 into the first leaf: the leaves hold 1, 2, 5 and 3, 4.
\<close>

theorem leaf_adds_unrouted_counterexample:
  "\<not> (\<forall>ops t'. adds example_leaf_env (new_tree 3) ops = Inr t' \<longrightarrow>
          (\<exists>as'. is_chain (leaves t') 0 as' \<and> chain_ordered (leaves t') as'))"
proof
  assume a: "\<forall>ops t'. adds example_leaf_env (new_tree 3) ops = Inr t' \<longrightarrow>
          (\<exists>as'. is_chain (leaves t') 0 as' \<and> chain_ordered (leaves t') as')"
  from example_unrouted_result obtain t' where
    r: "adds example_leaf_env (new_tree 3)
           [(0, 1, ()), (0, 2, ()), (0, 3, ()), (0, 4, ()), (0, 5, ())] = Inr t'"
    and seg: "is_seg (leaves t') (Some 0) [0, 1] None"
    and k: "leaf_keys (leaves t') 0 = [1, 2, 5]" "leaf_keys (leaves t') 1 = [3, 4]"
    by blast
  from a r obtain as' where c: "is_chain (leaves t') 0 as'" and o: "chain_ordered (leaves t') as'"
    by blast
  from c seg have "as' = [0, 1]"
    unfolding is_chain_def by (blast intro: is_seg_unique)
  with o k show False
    by (simp add: chain_ordered_def)
qed

section \<open>In-memory B+ tree: the bottom-up builder\<close>

text \<open>
  Source: \<^verbatim>\<open>src/ts/btree/tree-builder.ts\<close>, class \<^verbatim>\<open>BPlusTreeBuilder\<close>. The builder's \<^verbatim>\<open>Map\<close>
  is the list of its entries in insertion order (a \<^verbatim>\<open>Map\<close> has every key once); the value of
  a key is the list of its entry values (one value when the keys are unique). The tree that
  \<^verbatim>\<open>create\<close> returns is a value: a leaf with its entries, or a node with its entries (key
  and less-than child) and its greater-than child. The parent pointers and the links
  between siblings are left out: \<^verbatim>\<open>nextNode\<close> of the node at position \<open>i\<close> of a level is the
  node at position \<open>i + 1\<close>, \<^verbatim>\<open>prevNode\<close> the one at \<open>i - 1\<close>. Reading a property of
  \<^verbatim>\<open>undefined\<close> or \<^verbatim>\<open>null\<close> is the error \<open>BuildTypeError\<close>. \<^verbatim>\<open>_checkNewEntryArgs\<close> and
  \<^verbatim>\<open>_sortCompare\<close> are not in the sources given: the first is a parameter, the second is the
  order of a linear order on keys. The fill factor is a whole number of percent.
\<close>

datatype ('k, 'v) bnode =
    Leaf "('k \<times> 'v list) list"
  | Node "('k \<times> ('k, 'v) bnode) list" "('k, 'v) bnode option"

datatype builder_error = InvalidArgs | UniqueKeyViolation | BuildTypeError

record ('k, 'v) builder =
  blist :: "('k \<times> 'v list) list"
  indexedValues :: nat
  b_uniqueKeys :: bool
  fillFactor :: nat

record ('k, 'v) built_tree =
  bt_root :: "('k, 'v) bnode"
  bt_depth :: nat
  bt_maxEntriesPerNode :: nat
  bt_uniqueKeys :: bool
  bt_fillFactor :: nat

fun list_add :: "('k \<times> 'v list) list \<Rightarrow> 'k \<Rightarrow> 'v \<Rightarrow> ('k \<times> 'v list) list" where
  "list_add [] key v = [(key, [v])]"
| "list_add ((k, vs) # rest) key v =
     (if k = key then (k, vs @ [v]) # rest else (k, vs) # list_add rest key v)"

definition builder_add ::
  "('k \<Rightarrow> 'v \<Rightarrow> bool) \<Rightarrow> ('k, 'v) builder \<Rightarrow> 'k \<Rightarrow> 'v \<Rightarrow> builder_error + ('k, 'v) builder" where
  "builder_add checkArgs b key entryValue =
     (if checkArgs key entryValue then Inl InvalidArgs
      else if b_uniqueKeys b \<and> map_of (blist b) key \<noteq> None then Inl UniqueKeyViolation
      else Inr (b\<lparr>blist := list_add (blist b) key entryValue,
                  indexedValues := indexedValues b + 1\<rparr>))"

text \<open>
  The two loops that walk down to the leftmost leaf
  (\<^verbatim>\<open>while (!(ltChild instanceof BPlusTreeLeaf)) ltChild = ltChild.entries[0].ltChild\<close>) and
  read \<^verbatim>\<open>ltChild.entries[0].key\<close>.
\<close>

fun first_leaf_key :: "('k, 'v) bnode \<Rightarrow> builder_error + 'k" where
  "first_leaf_key (Leaf []) = Inl BuildTypeError"
| "first_leaf_key (Leaf (e # es)) = Inr (fst e)"
| "first_leaf_key (Node [] gt) = Inl BuildTypeError"
| "first_leaf_key (Node (e # es) gt) = first_leaf_key (snd e)"

type_synonym ('k, 'v) parent = "('k \<times> ('k, 'v) bnode) list \<times> ('k, 'v) bnode option"

text \<open>
  One round of the loop that moves an entry of the previous parent to the front of the last
  parent. \<open>child\<close> is the child the last parent was just given as its greater-than child.
\<close>

definition move_entry ::
  "('k, 'v) bnode \<Rightarrow> ('k, 'v) parent \<times> ('k, 'v) parent
     \<Rightarrow> builder_error + ('k, 'v) parent \<times> ('k, 'v) parent" where
  "move_entry child pp =
     (case pp of ((prev_entries, prev_gt), (entries, gt)) \<Rightarrow>
        let firstChild = (if length entries = 0 then child else snd (entries ! 0))
        in if prev_entries = [] then Inl BuildTypeError
           else
             let moveEntry = last prev_entries;
                 prev_entries' = butlast prev_entries
             in (case prev_gt of
                   None \<Rightarrow> Inl BuildTypeError
                 | Some moveNode \<Rightarrow>
                     (case first_leaf_key firstChild of
                        Inl e \<Rightarrow> Inl e
                      | Inr key \<Rightarrow>
                          Inr ((prev_entries', Some (snd moveEntry)),
                               ((key, moveNode) # entries, gt)))))"

fun move_entries ::
  "nat \<Rightarrow> ('k, 'v) bnode \<Rightarrow> ('k, 'v) parent \<times> ('k, 'v) parent
     \<Rightarrow> builder_error + ('k, 'v) parent \<times> ('k, 'v) parent" where
  "move_entries 0 child pp = Inr pp"
| "move_entries (Suc j) child pp =
     (case move_entry child pp of
        Inl e \<Rightarrow> Inl e
      | Inr pp' \<Rightarrow> move_entries j child pp')"

text \<open>
  The body of the loop over the nodes of a level, for the node at position \<open>i\<close>. \<open>next_key i\<close>
  is the key of the entry made for a node that is not the last of its parent: at the leaf
  level \<^verbatim>\<open>list[fromIndex + entriesPerLeaf].key\<close>, above it the first key of the leftmost leaf
  under \<^verbatim>\<open>node.nextNode\<close>.
\<close>

definition level_step ::
  "nat \<Rightarrow> nat \<Rightarrow> (nat \<Rightarrow> builder_error + 'k) \<Rightarrow> ('k, 'v) bnode list \<Rightarrow> nat
     \<Rightarrow> ('k, 'v) parent list \<Rightarrow> builder_error + ('k, 'v) parent list" where
  "level_step parentConnections minParentEntries next_key nodesAtLevel i parentNodes =
     (let parentIndex = i div parentConnections;
          nrOfNodesAtLevel = length nodesAtLevel
      in if parentIndex \<ge> length parentNodes then Inl BuildTypeError
         else
           let (entries, gt) = parentNodes ! parentIndex;
               node = nodesAtLevel ! i;
               isLast = ((i + 1) div parentConnections > parentIndex \<or> i = nrOfNodesAtLevel - 1)
           in if isLast then
                (if length parentNodes > 1 \<and> length entries < minParentEntries then
                   (if parentIndex = 0 then Inl BuildTypeError
                    else
                      (case move_entries (minParentEntries - length entries) node
                              (parentNodes ! (parentIndex - 1), (entries, Some node)) of
                         Inl e \<Rightarrow> Inl e
                       | Inr (prevParent, parent) \<Rightarrow>
                           Inr (parentNodes[parentIndex - 1 := prevParent, parentIndex := parent])))
                 else Inr (parentNodes[parentIndex := (entries, Some node)]))
              else
                (case next_key i of
                   Inl e \<Rightarrow> Inl e
                 | Inr ltChildKey \<Rightarrow>
                     Inr (parentNodes[parentIndex := (entries @ [(ltChildKey, node)], gt)])))"

definition ceil_div :: "nat \<Rightarrow> nat \<Rightarrow> nat" where
  "ceil_div a b = (a + b - 1) div b"

fun level_loop ::
  "nat \<Rightarrow> nat \<Rightarrow> (nat \<Rightarrow> builder_error + 'k) \<Rightarrow> ('k, 'v) bnode list \<Rightarrow> nat list
     \<Rightarrow> ('k, 'v) parent list \<Rightarrow> builder_error + ('k, 'v) parent list" where
  "level_loop pc minP next_key nodesAtLevel [] parentNodes = Inr parentNodes"
| "level_loop pc minP next_key nodesAtLevel (i # is) parentNodes =
     (case level_step pc minP next_key nodesAtLevel i parentNodes of
        Inl e \<Rightarrow> Inl e
      | Inr parentNodes' \<Rightarrow> level_loop pc minP next_key nodesAtLevel is parentNodes')"

text \<open>One level: the new parent nodes, then the loop over the nodes of the level.\<close>

definition build_level ::
  "nat \<Rightarrow> nat \<Rightarrow> (nat \<Rightarrow> builder_error + 'k) \<Rightarrow> ('k, 'v) bnode list
     \<Rightarrow> builder_error + ('k, 'v) bnode list" where
  "build_level parentConnections minParentEntries next_key nodesAtLevel =
     (let nrOfNodesAtLevel = length nodesAtLevel;
          nrOfParentNodes = ceil_div nrOfNodesAtLevel parentConnections;
          parentNodes = replicate nrOfParentNodes ([], None)
      in map_sum id (map (\<lambda>(entries, gt). Node entries gt))
           (level_loop parentConnections minParentEntries next_key nodesAtLevel
              [0..<nrOfNodesAtLevel] parentNodes))"

definition node_next_key :: "('k, 'v) bnode list \<Rightarrow> nat \<Rightarrow> builder_error + 'k" where
  "node_next_key nodesAtLevel i =
     (if i + 1 < length nodesAtLevel then first_leaf_key (nodesAtLevel ! (i + 1))
      else Inl BuildTypeError)"

definition leaf_next_key :: "('k \<times> 'v list) list \<Rightarrow> nat \<Rightarrow> nat \<Rightarrow> builder_error + 'k" where
  "leaf_next_key list entriesPerLeaf i =
     (let fromIndex = i * entriesPerLeaf
      in if fromIndex + entriesPerLeaf < length list
         then Inr (fst (list ! (fromIndex + entriesPerLeaf)))
         else Inl BuildTypeError)"


text \<open>
  The \<^verbatim>\<open>while (true)\<close> loop from the second level on: the nodes of the level get parents until
  a level has one parent, which is the root. The loop has no other exit: a run that does
  not end is the value \<open>None\<close>. The second component counts the executions of
  \<^verbatim>\<open>tree.depth++\<close>.
\<close>

partial_function (option) build_levels ::
  "nat \<Rightarrow> nat \<Rightarrow> ('k, 'v) bnode list \<Rightarrow> nat
     \<Rightarrow> (builder_error + ('k, 'v) bnode \<times> nat) option" where
  "build_levels parentConnections minParentEntries nodesAtLevel levels =
     (case build_level parentConnections minParentEntries (node_next_key nodesAtLevel)
             nodesAtLevel of
        Inl e \<Rightarrow> Some (Inl e)
      | Inr parentNodes \<Rightarrow>
          if length parentNodes = 1 then Some (Inr (parentNodes ! 0, levels))
          else build_levels parentConnections minParentEntries parentNodes (levels + 1))"

definition entriesPerNode_of :: "nat option \<Rightarrow> nat \<Rightarrow> nat" where
  "entriesPerNode_of maxEntries len =
     (case maxEntries of
        Some m \<Rightarrow> m
      | None \<Rightarrow> min 255 (max 3 (ceil_div len 10)))"

text \<open>
  \<^verbatim>\<open>Math.floor(entriesPerNode * (this.fillFactor / 100))\<close> is computed in double precision:
  the quotient is rounded to the nearest double, then the product is, and the floor is taken
  of what is left (at 50 entries and a fill factor of 58 that is 28, not 29). A double is
  given here by a mantissa \<open>m\<close> and an exponent \<open>e\<close>, its value being \<open>m * 2 ^ e\<close>;
  \<open>nearest_double num den\<close> is the double nearest to \<open>num / den\<close>, with 53 bits of mantissa
  and ties going to the even mantissa. The range of the exponent is not limited: the
  numbers of the builder are far from the overflow and the underflow of a double. The other
  quotients of \<^verbatim>\<open>create\<close> (\<^verbatim>\<open>Math.ceil(list.length / 10)\<close>, \<^verbatim>\<open>Math.floor(i / parentConnections)\<close>
  and the like) are quotients of whole numbers below \<open>2 ^ 53\<close>, where rounding the quotient
  to a double changes neither its floor nor its ceiling.
\<close>

function bit_length :: "int \<Rightarrow> nat" where
  "bit_length n = (if n \<le> 0 then 0 else Suc (bit_length (n div 2)))"
  by pat_completeness auto
termination
  by (relation "measure nat") auto

declare bit_length.simps [simp del]

definition round_half_even :: "int \<Rightarrow> int \<Rightarrow> int" where
  "round_half_even num den =
     (let q = num div den; r = num mod den
      in if 2 * r < den then q
         else if den < 2 * r then q + 1
         else if even q then q else q + 1)"

type_synonym double = "int \<times> int"

definition nearest_double :: "int \<Rightarrow> int \<Rightarrow> double" where
  "nearest_double num den =
     (if num \<le> 0 then (0, 0)
      else
        let k = int (bit_length num) - int (bit_length den);
            e1 = k - 53;
            e = (if num * 2 ^ nat (- e1) < 2 ^ 53 * (den * 2 ^ nat e1) then e1 else e1 + 1)
        in (round_half_even (num * 2 ^ nat (- e)) (den * 2 ^ nat e), e))"

text \<open>The quotient of two whole numbers, and the product of a whole number and a double.\<close>

definition double_div :: "int \<Rightarrow> int \<Rightarrow> double" where
  "double_div a b = nearest_double a b"

definition double_mul :: "int \<Rightarrow> double \<Rightarrow> double" where
  "double_mul n d = (case d of (m, e) \<Rightarrow> nearest_double (n * m * 2 ^ nat e) (2 ^ nat (- e)))"

definition double_floor :: "double \<Rightarrow> int" where
  "double_floor d = (case d of (m, e) \<Rightarrow> (m * 2 ^ nat e) div 2 ^ nat (- e))"

definition entriesPerLeaf_of :: "nat \<Rightarrow> nat \<Rightarrow> nat" where
  "entriesPerLeaf_of entriesPerNode ff =
     max 3 (nat (double_floor (double_mul (int entriesPerNode) (double_div (int ff) 100))))"

definition make_leaves :: "('k \<times> 'v list) list \<Rightarrow> nat \<Rightarrow> nat \<Rightarrow> ('k, 'v) bnode list" where
  "make_leaves list entriesPerLeaf nrOfLeafs =
     map (\<lambda>i. Leaf (take entriesPerLeaf (drop (i * entriesPerLeaf) list))) [0..<nrOfLeafs]"

definition create ::
  "('k :: linorder, 'v) builder \<Rightarrow> nat option \<Rightarrow> (builder_error + ('k, 'v) built_tree) option" where
  "create b maxEntries =
     (let list = sort_key fst (blist b);
          entriesPerNode = entriesPerNode_of maxEntries (length list);
          entriesPerLeaf = entriesPerLeaf_of entriesPerNode (fillFactor b);
          minParentEntries = max 1 (entriesPerNode div 2);
          nrOfLeafs = max 1 (ceil_div (length list) entriesPerLeaf);
          parentConnections = entriesPerNode + 1;
          nodesAtLevel = make_leaves list entriesPerLeaf nrOfLeafs;
          tree = (\<lambda>(r, levels). \<lparr>bt_root = r, bt_depth = levels,
                                   bt_maxEntriesPerNode = entriesPerNode,
                                   bt_uniqueKeys = b_uniqueKeys b, bt_fillFactor = fillFactor b\<rparr>)
      in case build_level parentConnections minParentEntries
                (leaf_next_key list entriesPerLeaf) nodesAtLevel of
           Inl e \<Rightarrow> Some (Inl e)
         | Inr parentNodes \<Rightarrow>
             if nrOfLeafs = 1 then Some (Inr (tree (nodesAtLevel ! 0, 0)))
             else if length parentNodes = 1 then Some (Inr (tree (parentNodes ! 0, 0)))
             else map_option (map_sum id tree)
                    (build_levels parentConnections minParentEntries parentNodes 1))"

text \<open>
  The property of the claim. \<open>smallest_key\<close> is the smallest key of the leftmost leaf of a
  subtree; \<open>keys_chain\<close> says that the key of every entry of a node is the \<open>smallest_key\<close>
  of the child that follows the entry's own child, where the keys from the entry's key on
  are looked up: the less-than child of the next entry, or the greater-than child after the
  last entry. \<open>routing_ok\<close> asks this of every node of a tree, and of every leaf that its keys
  ascend.
\<close>

fun leftmost_leaf :: "('k, 'v) bnode \<Rightarrow> ('k \<times> 'v list) list" where
  "leftmost_leaf (Leaf es) = es"
| "leftmost_leaf (Node [] None) = []"
| "leftmost_leaf (Node [] (Some g)) = leftmost_leaf g"
| "leftmost_leaf (Node (e # es) gt) = leftmost_leaf (snd e)"

definition smallest_key :: "('k :: linorder, 'v) bnode \<Rightarrow> 'k option" where
  "smallest_key t =
     (case leftmost_leaf t of
        [] \<Rightarrow> None
      | e # es \<Rightarrow> Some (Min (set (map fst (e # es)))))"

fun keys_chain ::
  "('k :: linorder \<times> ('k, 'v) bnode) list \<Rightarrow> ('k, 'v) bnode option \<Rightarrow> bool" where
  "keys_chain [] gt = True"
| "keys_chain [e] gt = (case gt of None \<Rightarrow> False | Some g \<Rightarrow> smallest_key g = Some (fst e))"
| "keys_chain (e # e' # es) gt = (smallest_key (snd e') = Some (fst e) \<and> keys_chain (e' # es) gt)"

fun routing_ok :: "('k :: linorder, 'v) bnode \<Rightarrow> bool" where
  "routing_ok (Leaf es) = sorted (map fst es)"
| "routing_ok (Node es gt) =
     (keys_chain es gt \<and> list_all (\<lambda>e. routing_ok (snd e)) es
      \<and> (case gt of None \<Rightarrow> True | Some g \<Rightarrow> routing_ok g))"


text \<open>
  What the builder keeps of every node it has finished, beyond the property of the claim:
  leaves are not empty, nodes have an entry and a greater-than child.
\<close>

fun wf_node :: "('k :: linorder, 'v) bnode \<Rightarrow> bool" where
  "wf_node (Leaf es) = (es \<noteq> [] \<and> sorted (map fst es))"
| "wf_node (Node es gt) =
     (es \<noteq> [] \<and> keys_chain es gt \<and> list_all (\<lambda>e. wf_node (snd e)) es
      \<and> (case gt of None \<Rightarrow> False | Some g \<Rightarrow> wf_node g))"

definition good_children :: "('k :: linorder, 'v) parent \<Rightarrow> bool" where
  "good_children p =
     (list_all (\<lambda>e. wf_node (snd e)) (fst p)
      \<and> (case snd p of None \<Rightarrow> True | Some g \<Rightarrow> wf_node g))"

definition closed_parent :: "('k :: linorder, 'v) parent \<Rightarrow> bool" where
  "closed_parent p = (snd p \<noteq> None \<and> keys_chain (fst p) (snd p) \<and> good_children p)"

subsection \<open>Keys of finished nodes\<close>

lemma smallest_key_sorted_leaf:
  assumes "sorted (map fst (e # es))"
  shows "smallest_key (Leaf (e # es)) = Some (fst e)"
proof -
  have "Min (set (map fst (e # es))) = fst e"
    using assms by (intro Min_eqI) auto
  then show ?thesis by (simp add: smallest_key_def)
qed

lemma smallest_key_Node [simp]:
  "smallest_key (Node (e # es) gt) = smallest_key (snd e)"
  by (simp add: smallest_key_def)

lemma wf_smallest_key:
  "wf_node t \<Longrightarrow> \<exists>k. first_leaf_key t = Inr k \<and> smallest_key t = Some k"
proof (induction t rule: first_leaf_key.induct)
  case 1
  then show ?case by simp
next
  case (2 e es)
  then show ?case using smallest_key_sorted_leaf [of e es] by simp
next
  case (3 gt)
  then show ?case by simp
next
  case (4 e es gt)
  then show ?case by simp
qed

lemma wf_routing_ok: "wf_node t \<Longrightarrow> routing_ok t"
proof (induction t rule: routing_ok.induct)
  case (1 es)
  then show ?case by simp
next
  case (2 es gt)
  have "list_all (\<lambda>e. routing_ok (snd e)) es"
    using 2 by (auto simp: list_all_iff)
  moreover have "case gt of None \<Rightarrow> True | Some g \<Rightarrow> routing_ok g"
    using 2 by (auto split: option.splits)
  ultimately show ?case using "2.prems" by simp
qed

lemma keys_chain_snoc:
  "keys_chain es (Some c) \<Longrightarrow> smallest_key c' = Some k \<Longrightarrow> keys_chain (es @ [(k, c)]) (Some c')"
  by (induction es "Some c" rule: keys_chain.induct) auto

lemma keys_chain_butlast:
  "es \<noteq> [] \<Longrightarrow> keys_chain es gt \<Longrightarrow> keys_chain (butlast es) (Some (snd (last es)))"
  by (induction es gt rule: keys_chain.induct) auto

lemma keys_chain_Cons:
  "keys_chain es (Some g) \<Longrightarrow> smallest_key (if length es = 0 then g else snd (es ! 0)) = Some k \<Longrightarrow>
   keys_chain ((k, c) # es) (Some g)"
  by (cases es) auto

subsection \<open>Moving entries between the last two parents\<close>

lemma move_entry_ok:
  assumes "closed_parent (pes, pgt)" "pes \<noteq> []"
    and "keys_chain es (Some g)" "good_children (es, Some g)"
  shows "\<exists>pes' pgt' es'.
           move_entry g ((pes, pgt), (es, Some g)) = Inr ((pes', pgt'), (es', Some g))
           \<and> closed_parent (pes', pgt') \<and> length pes' = length pes - 1
           \<and> keys_chain es' (Some g) \<and> good_children (es', Some g)
           \<and> length es' = length es + 1"
proof -
  from assms(1) obtain pg where pg: "pgt = Some pg" and wpg: "wf_node pg"
    and pch: "keys_chain pes (Some pg)" and pgood: "list_all (\<lambda>e. wf_node (snd e)) pes"
    by (auto simp: closed_parent_def good_children_def split: option.splits)
  define firstChild where "firstChild = (if length es = 0 then g else snd (es ! 0))"
  have "wf_node firstChild"
    using assms(4) by (cases es) (auto simp: firstChild_def good_children_def)
  from wf_smallest_key [OF this] obtain k where
    k: "first_leaf_key firstChild = Inr k" "smallest_key firstChild = Some k"
    by blast
  have res: "move_entry g ((pes, pgt), (es, Some g))
        = Inr ((butlast pes, Some (snd (last pes))), ((k, pg) # es, Some g))"
    using assms(2) pg k(1)
    by (cases es) (simp_all add: move_entry_def Let_def firstChild_def)
  have "wf_node (snd (last pes))"
    using pgood assms(2) by (auto simp: list_all_iff)
  moreover have "list_all (\<lambda>e. wf_node (snd e)) (butlast pes)"
    using pgood by (auto simp: list_all_iff dest: in_set_butlastD)
  ultimately have c1: "closed_parent (butlast pes, Some (snd (last pes)))"
    using keys_chain_butlast [OF assms(2) pch [folded pg]]
    by (simp add: closed_parent_def good_children_def)
  have c2: "keys_chain ((k, pg) # es) (Some g)"
    using assms(3) k(2) unfolding firstChild_def by (rule keys_chain_Cons)
  have c3: "good_children ((k, pg) # es, Some g)"
    using assms(4) wpg by (simp add: good_children_def)
  show ?thesis
    using res c1 c2 c3 by simp
qed

lemma move_entries_ok:
  assumes "closed_parent (pes, pgt)" "j \<le> length pes"
    and "keys_chain es (Some g)" "good_children (es, Some g)"
  shows "\<exists>pes' pgt' es'.
           move_entries j g ((pes, pgt), (es, Some g)) = Inr ((pes', pgt'), (es', Some g))
           \<and> closed_parent (pes', pgt') \<and> length pes' = length pes - j
           \<and> keys_chain es' (Some g) \<and> good_children (es', Some g)
           \<and> length es' = length es + j"
  using assms
proof (induction j arbitrary: pes pgt es)
  case 0
  then show ?case by simp
next
  case (Suc j)
  from Suc.prems(2) have ne: "pes \<noteq> []" by auto
  from move_entry_ok [OF Suc.prems(1) ne Suc.prems(3,4)] obtain pes1 pgt1 es1 where
    m: "move_entry g ((pes, pgt), (es, Some g)) = Inr ((pes1, pgt1), (es1, Some g))"
    and c: "closed_parent (pes1, pgt1)" "length pes1 = length pes - 1"
      "keys_chain es1 (Some g)" "good_children (es1, Some g)" "length es1 = length es + 1"
    by blast
  have "j \<le> length pes1" using c(2) Suc.prems(2) by simp
  from Suc.IH [OF c(1) this c(3,4)] obtain pes' pgt' es' where
    "move_entries j g ((pes1, pgt1), (es1, Some g)) = Inr ((pes', pgt'), (es', Some g))"
    "closed_parent (pes', pgt')" "length pes' = length pes1 - j"
    "keys_chain es' (Some g)" "good_children (es', Some g)" "length es' = length es1 + j"
    by blast
  then show ?case using m c(2,5) by simp
qed


subsection \<open>The number of parents of a level\<close>

lemma ceil_div_Suc: "0 < pc \<Longrightarrow> 0 < n \<Longrightarrow> ceil_div n pc = Suc ((n - 1) div pc)"
proof -
  assume a: "0 < pc" "0 < n"
  then have "n + pc - 1 = (n - 1) + pc" by simp
  then have "ceil_div n pc = ((n - 1) + pc) div pc" by (simp only: ceil_div_def)
  also have "\<dots> = Suc ((n - 1) div pc)" using a(1) by simp
  finally show ?thesis .
qed

lemma div_less_ceil_div: "0 < pc \<Longrightarrow> i < n \<Longrightarrow> i div pc < ceil_div n pc"
proof -
  assume a: "0 < pc" "i < n"
  then have "i div pc \<le> (n - 1) div pc" by (intro div_le_mono) simp
  then show ?thesis using a by (simp add: ceil_div_Suc)
qed

lemma ceil_div_less: "2 \<le> pc \<Longrightarrow> 2 \<le> n \<Longrightarrow> ceil_div n pc < n"
proof -
  assume a: "2 \<le> pc" "2 \<le> n"
  have "(n - 1) div pc \<le> (n - 1) div 2"
    using a(1) by (intro div_le_mono2) simp_all
  also have "\<dots> < n - 1" using a(2) by simp
  finally have "Suc ((n - 1) div pc) < n" by simp
  moreover have "ceil_div n pc = Suc ((n - 1) div pc)"
    using a by (intro ceil_div_Suc) simp_all
  ultimately show ?thesis by simp
qed

lemma ceil_div_one: "0 < pc \<Longrightarrow> 0 < n \<Longrightarrow> ceil_div n pc = 1 \<Longrightarrow> n - 1 < pc"
  by (simp add: ceil_div_Suc div_eq_0_iff)

lemma ceil_div_pos: "0 < pc \<Longrightarrow> 0 < n \<Longrightarrow> 0 < ceil_div n pc"
  by (simp add: ceil_div_Suc)

subsection \<open>The loop over the nodes of a level\<close>

definition open_parent ::
  "('k :: linorder, 'v) bnode list \<Rightarrow> nat \<Rightarrow> nat \<Rightarrow> ('k, 'v) parent \<Rightarrow> bool" where
  "open_parent cs i r p =
     (snd p = None \<and> length (fst p) = r \<and> keys_chain (fst p) (Some (cs ! i))
      \<and> list_all (\<lambda>e. wf_node (snd e)) (fst p))"

definition level_inv ::
  "nat \<Rightarrow> ('k :: linorder, 'v) bnode list \<Rightarrow> nat \<Rightarrow> ('k, 'v) parent list \<Rightarrow> bool" where
  "level_inv pc cs i ps =
     (length ps = ceil_div (length cs) pc
      \<and> (\<forall>q < i div pc. closed_parent (ps ! q) \<and> length (fst (ps ! q)) = pc - 1)
      \<and> open_parent cs i (i mod pc) (ps ! (i div pc))
      \<and> (\<forall>q. i div pc < q \<longrightarrow> q < length ps \<longrightarrow> ps ! q = ([], None)))"

lemma level_inv_start:
  assumes "0 < pc" "0 < length cs"
  shows "level_inv pc cs 0 (replicate (ceil_div (length cs) pc) ([], None))"
  using ceil_div_pos [OF assms] by (simp add: level_inv_def open_parent_def)

lemma level_step_inner:
  assumes pc: "2 \<le> pc" and minP: "minP \<le> pc - 1"
    and i: "i + 1 < length cs"
    and inv: "level_inv pc cs i ps"
    and wf: "\<forall>c \<in> set cs. wf_node c"
    and nk: "next_key i = Inr k" "smallest_key (cs ! (i + 1)) = Some k"
  shows "\<exists>ps'. level_step pc minP next_key cs i ps = Inr ps' \<and> level_inv pc cs (i + 1) ps'"
proof -
  define cur where "cur = i div pc"
  define r where "r = i mod pc"
  obtain es gt where p: "ps ! cur = (es, gt)" by (cases "ps ! cur")
  have len: "length ps = ceil_div (length cs) pc"
    and closed: "\<forall>q < cur. closed_parent (ps ! q) \<and> length (fst (ps ! q)) = pc - 1"
    and opn: "open_parent cs i r (es, gt)"
    and rest: "\<forall>q. cur < q \<longrightarrow> q < length ps \<longrightarrow> ps ! q = ([], None)"
    using inv p by (simp_all add: level_inv_def cur_def r_def)
  have gt: "gt = None" and les: "length es = r" and ch: "keys_chain es (Some (cs ! i))"
    and wes: "list_all (\<lambda>e. wf_node (snd e)) es"
    using opn by (simp_all add: open_parent_def)
  have pc0: "0 < pc" using pc by simp
  have cur_lt: "cur < length ps"
    unfolding len cur_def using pc0 i by (intro div_less_ceil_div) simp_all
  have nxt_lt: "(i + 1) div pc < length ps"
    unfolding len using pc0 i by (intro div_less_ceil_div) simp_all
  have wi: "wf_node (cs ! i)" using wf i by simp
  have notlast: "i \<noteq> length cs - 1" using i by simp
  show ?thesis
  proof (cases "Suc r = pc")
    case False
    have d: "(i + 1) div pc = cur" and m: "(i + 1) mod pc = Suc r"
      using False by (simp_all add: cur_def r_def div_Suc mod_Suc)
    define ps' where "ps' = ps[cur := (es @ [(k, cs ! i)], gt)]"
    have step: "level_step pc minP next_key cs i ps = Inr ps'"
      using cur_lt p d notlast nk(1)
      by (simp add: level_step_def Let_def cur_def [symmetric] ps'_def)
    have "open_parent cs (i + 1) (Suc r) (es @ [(k, cs ! i)], gt)"
      using gt les wes wi keys_chain_snoc [OF ch nk(2)]
      by (simp add: open_parent_def)
    then have "level_inv pc cs (i + 1) ps'"
      unfolding level_inv_def d m
      using len closed rest cur_lt by (simp add: ps'_def)
    then show ?thesis using step by blast
  next
    case True
    have d: "(i + 1) div pc = Suc cur" and m: "(i + 1) mod pc = 0"
      using True by (simp_all add: cur_def r_def div_Suc mod_Suc)
    define ps' where "ps' = ps[cur := (es, Some (cs ! i))]"
    have big: "1 < length ps" using nxt_lt d by simp
    have enough: "\<not> length es < minP" using les True minP by simp
    have step: "level_step pc minP next_key cs i ps = Inr ps'"
      using cur_lt p d enough
      by (simp add: level_step_def Let_def cur_def [symmetric] ps'_def)
    have cl: "closed_parent (es, Some (cs ! i))"
      using ch wes wi by (simp add: closed_parent_def good_children_def)
    have l: "length es = pc - 1" using les True by simp
    have nx: "ps ! Suc cur = ([], None)" using rest nxt_lt d by simp
    have c': "\<forall>q < Suc cur. closed_parent (ps' ! q) \<and> length (fst (ps' ! q)) = pc - 1"
    proof (intro allI impI)
      fix q assume "q < Suc cur"
      then consider "q < cur" | "q = cur" by linarith
      then show "closed_parent (ps' ! q) \<and> length (fst (ps' ! q)) = pc - 1"
      proof cases
        case 1
        then show ?thesis using closed by (simp add: ps'_def)
      next
        case 2
        then show ?thesis using cl l cur_lt by (simp add: ps'_def)
      qed
    qed
    have o': "open_parent cs (i + 1) 0 (ps' ! Suc cur)"
      using nx by (simp add: ps'_def open_parent_def)
    have r': "\<forall>q. Suc cur < q \<longrightarrow> q < length ps' \<longrightarrow> ps' ! q = ([], None)"
      using rest by (simp add: ps'_def)
    have "level_inv pc cs (i + 1) ps'"
      unfolding level_inv_def d m using len c' o' r' by (simp add: ps'_def)
    then show ?thesis using step by blast
  qed
qed


lemma level_step_at_last:
  assumes "i div pc < length ps" "ps ! (i div pc) = (es, gt)" "i = length cs - 1"
  shows "level_step pc minP next_key cs i ps =
     (if length ps > 1 \<and> length es < minP then
        (if i div pc = 0 then Inl BuildTypeError
         else
           (case move_entries (minP - length es) (cs ! i)
                   (ps ! (i div pc - 1), (es, Some (cs ! i))) of
              Inl e \<Rightarrow> Inl e
            | Inr (prevParent, parent) \<Rightarrow>
                Inr (ps[i div pc - 1 := prevParent, i div pc := parent])))
      else Inr (ps[i div pc := (es, Some (cs ! i))]))"
  using assms(1,2) unfolding level_step_def Let_def assms(3) [symmetric] by simp

lemma level_step_last:
  assumes pc: "3 \<le> pc" and minP: "1 \<le> minP" "minP < pc - 1"
    and n: "0 < length cs"
    and inv: "level_inv pc cs (length cs - 1) ps"
    and wf: "\<forall>c \<in> set cs. wf_node c"
  shows "\<exists>ps'. level_step pc minP next_key cs (length cs - 1) ps = Inr ps'
           \<and> length ps' = ceil_div (length cs) pc
           \<and> (\<forall>q < length ps'. closed_parent (ps' ! q) \<and> (2 \<le> length cs \<longrightarrow> fst (ps' ! q) \<noteq> []))"
proof -
  define i where "i = length cs - 1"
  define cur where "cur = i div pc"
  define r where "r = i mod pc"
  define node where "node = cs ! i"
  obtain es gt where p: "ps ! cur = (es, gt)" by (cases "ps ! cur")
  have pc0: "0 < pc" using pc by simp
  have len: "length ps = ceil_div (length cs) pc"
    and closed: "\<forall>q < cur. closed_parent (ps ! q) \<and> length (fst (ps ! q)) = pc - 1"
    and opn: "open_parent cs i r (es, gt)"
    using inv p by (simp_all add: level_inv_def cur_def r_def i_def)
  have gt: "gt = None" and les: "length es = r" and ch: "keys_chain es (Some node)"
    and wes: "list_all (\<lambda>e. wf_node (snd e)) es"
    using opn by (simp_all add: open_parent_def node_def)
  have np: "length ps = Suc cur"
    unfolding len cur_def i_def using pc0 n by (rule ceil_div_Suc)
  have cur_lt: "cur < length ps" using np by simp
  have wn: "wf_node node" using wf n by (simp add: node_def i_def)
  have cl: "closed_parent (es, Some node)"
    using ch wes wn by (simp add: closed_parent_def good_children_def)
  have gc: "good_children (es, Some node)"
    using wes wn by (simp add: good_children_def)
  have last: "i = length cs - 1" by (simp add: i_def)
  show ?thesis
  proof (cases "1 < length ps \<and> length es < minP")
    case True
    then have cur0: "cur \<noteq> 0" using np by simp
    obtain pes pgt where prev: "ps ! (cur - 1) = (pes, pgt)" by (cases "ps ! (cur - 1)")
    have pcl: "closed_parent (pes, pgt)" and plen: "length pes = pc - 1"
      using closed cur0 prev by (auto dest: spec [of _ "cur - 1"])
    have j: "minP - length es \<le> length pes" using plen minP by simp
    from move_entries_ok [OF pcl j ch gc] obtain pes' pgt' es' where
      mv: "move_entries (minP - length es) node ((pes, pgt), (es, Some node))
            = Inr ((pes', pgt'), (es', Some node))"
      and c: "closed_parent (pes', pgt')" "length pes' = length pes - (minP - length es)"
        "keys_chain es' (Some node)" "good_children (es', Some node)"
        "length es' = length es + (minP - length es)"
      by blast
    define ps' where "ps' = ps[cur - 1 := (pes', pgt'), cur := (es', Some node)]"
    have step: "level_step pc minP next_key cs i ps = Inr ps'"
      unfolding level_step_at_last [OF cur_lt [unfolded cur_def] p [unfolded cur_def] last]
      unfolding cur_def [symmetric] node_def [symmetric]
      using True cur0 prev mv by (simp add: ps'_def)
    have ne1: "pes' \<noteq> []" using c(2) plen minP by auto
    have ne2: "es' \<noteq> []" using c(5) minP True by auto
    have cl2: "closed_parent (es', Some node)"
      using c(3,4) by (simp add: closed_parent_def)
    have "closed_parent (ps' ! q) \<and> fst (ps' ! q) \<noteq> []" if "q < length ps'" for q
    proof -
      from that have "q < Suc cur" by (simp add: ps'_def np)
      then consider "q < cur - 1" | "q = cur - 1" | "q = cur" using cur0 by linarith
      then show ?thesis
      proof cases
        case 1
        then have "closed_parent (ps ! q) \<and> length (fst (ps ! q)) = pc - 1"
          using closed by simp
        moreover have "ps' ! q = ps ! q" using 1 by (simp add: ps'_def)
        ultimately show ?thesis using pc by auto
      next
        case 2
        then have "ps' ! q = (pes', pgt')" using cur0 cur_lt by (simp add: ps'_def)
        then show ?thesis using c(1) ne1 by simp
      next
        case 3
        then have "ps' ! q = (es', Some node)" using cur_lt by (simp add: ps'_def)
        then show ?thesis using cl2 ne2 by simp
      qed
    qed
    moreover have "length ps' = ceil_div (length cs) pc" using len by (simp add: ps'_def)
    ultimately show ?thesis using step unfolding i_def by blast
  next
    case False
    define ps' where "ps' = ps[cur := (es, Some node)]"
    have step: "level_step pc minP next_key cs i ps = Inr ps'"
      unfolding level_step_at_last [OF cur_lt [unfolded cur_def] p [unfolded cur_def] last]
      unfolding cur_def [symmetric] node_def [symmetric]
      using False by (auto simp add: ps'_def)
    have ne: "es \<noteq> []" if n2: "2 \<le> length cs"
    proof (cases "1 < length ps")
      case True
      then show ?thesis using False minP by auto
    next
      case False
      then have "cur = 0" using np by simp
      then have "i < pc" using pc0 by (simp add: cur_def div_eq_0_iff)
      then have "r = i" by (simp add: r_def)
      then show ?thesis using les n2 by (auto simp: i_def)
    qed
    have "closed_parent (ps' ! q) \<and> (2 \<le> length cs \<longrightarrow> fst (ps' ! q) \<noteq> [])"
      if "q < length ps'" for q
    proof -
      from that have "q < Suc cur" by (simp add: ps'_def np)
      then consider "q < cur" | "q = cur" by linarith
      then show ?thesis
      proof cases
        case 1
        then have "closed_parent (ps ! q) \<and> length (fst (ps ! q)) = pc - 1"
          using closed by simp
        moreover have "ps' ! q = ps ! q" using 1 by (simp add: ps'_def)
        ultimately show ?thesis using pc by auto
      next
        case 2
        then have "ps' ! q = (es, Some node)" using cur_lt by (simp add: ps'_def)
        then show ?thesis using cl ne by simp
      qed
    qed
    moreover have "length ps' = ceil_div (length cs) pc" using len by (simp add: ps'_def)
    ultimately show ?thesis using step unfolding i_def by blast
  qed
qed

lemma level_loop_append:
  "level_loop pc minP next_key cs (xs @ ys) ps =
     (case level_loop pc minP next_key cs xs ps of
        Inl e \<Rightarrow> Inl e
      | Inr ps' \<Rightarrow> level_loop pc minP next_key cs ys ps')"
  by (induction xs arbitrary: ps) (auto split: sum.splits)

lemma level_loop_prefix:
  assumes pc: "2 \<le> pc" and minP: "minP \<le> pc - 1"
    and wf: "\<forall>c \<in> set cs. wf_node c"
    and nk: "\<forall>i. i + 1 < length cs \<longrightarrow>
               (\<exists>k. next_key i = Inr k \<and> smallest_key (cs ! (i + 1)) = Some k)"
    and m: "m < length cs"
  shows "\<exists>ps. level_loop pc minP next_key cs [0..<m]
                 (replicate (ceil_div (length cs) pc) ([], None)) = Inr ps
              \<and> level_inv pc cs m ps"
  using m
proof (induction m)
  case 0
  then show ?case using level_inv_start [of pc cs] pc by simp
next
  case (Suc m)
  then obtain ps where ps: "level_loop pc minP next_key cs [0..<m]
      (replicate (ceil_div (length cs) pc) ([], None)) = Inr ps" "level_inv pc cs m ps"
    by auto
  from nk Suc.prems obtain k where k: "next_key m = Inr k" "smallest_key (cs ! (m + 1)) = Some k"
    by auto
  have "m + 1 < length cs" using Suc.prems by simp
  from level_step_inner [where next_key = next_key and i = m, OF pc minP this ps(2) wf k]
  obtain ps' where
    "level_step pc minP next_key cs m ps = Inr ps'" "level_inv pc cs (m + 1) ps'"
    by auto
  then show ?case using ps(1) by (simp add: level_loop_append)
qed

lemma build_level_ok:
  assumes pc: "3 \<le> pc" and minP: "1 \<le> minP" "minP < pc - 1"
    and wf: "\<forall>c \<in> set cs. wf_node c"
    and nk: "\<forall>i. i + 1 < length cs \<longrightarrow>
               (\<exists>k. next_key i = Inr k \<and> smallest_key (cs ! (i + 1)) = Some k)"
    and n: "2 \<le> length cs"
  shows "\<exists>ps. build_level pc minP next_key cs = Inr ps
              \<and> length ps = ceil_div (length cs) pc \<and> (\<forall>p \<in> set ps. wf_node p)"
proof -
  define init :: "('a, 'b) parent list" where
    "init = replicate (ceil_div (length cs) pc) ([], None)"
  have pc2: "2 \<le> pc" and minP': "minP \<le> pc - 1" using pc minP by simp_all
  have m: "length cs - 1 < length cs" and n0: "0 < length cs" using n by auto
  from level_loop_prefix [OF pc2 minP' wf nk m] obtain ps where
    ps: "level_loop pc minP next_key cs [0..<length cs - 1] init = Inr ps"
      "level_inv pc cs (length cs - 1) ps"
    unfolding init_def by blast
  from level_step_last [OF pc minP n0 ps(2) wf, of next_key] obtain ps' where
    ps': "level_step pc minP next_key cs (length cs - 1) ps = Inr ps'"
      "length ps' = ceil_div (length cs) pc"
      "\<forall>q < length ps'. closed_parent (ps' ! q) \<and> (2 \<le> length cs \<longrightarrow> fst (ps' ! q) \<noteq> [])"
    by blast
  have upt: "[0..<length cs] = [0..<length cs - 1] @ [length cs - 1]"
    using n0 by (cases "length cs") simp_all
  have loop: "level_loop pc minP next_key cs [0..<length cs] init = Inr ps'"
    by (subst upt) (simp only: level_loop_append ps(1) ps'(1) sum.case level_loop.simps)
  have "wf_node (case p of (entries, gt) \<Rightarrow> Node entries gt)" if "p \<in> set ps'" for p
  proof -
    from that obtain q where "q < length ps'" "ps' ! q = p" by (auto simp: in_set_conv_nth)
    then have "closed_parent p" "fst p \<noteq> []" using ps'(3) n by auto
    then show ?thesis
      by (cases p) (auto simp: closed_parent_def good_children_def split: option.splits)
  qed
  then show ?thesis
    using loop ps'(2) by (simp add: build_level_def Let_def init_def [symmetric])
qed


lemma build_level_single:
  assumes "0 < pc" "length cs = 1"
  shows "\<exists>ps. build_level pc minP next_key cs = Inr ps"
proof -
  have np: "ceil_div (Suc 0) pc = Suc 0" using assms by (simp add: ceil_div_Suc)
  have "level_step pc minP next_key cs 0 [([], None)] = Inr [([], Some (cs ! 0))]"
    using assms by (simp add: level_step_def Let_def)
  then show ?thesis
    using assms(2) by (simp add: build_level_def Let_def np)
qed

subsection \<open>The levels above the first\<close>

lemma build_levels_ok:
  assumes pc: "3 \<le> pc" and minP: "1 \<le> minP" "minP < pc - 1"
    and n: "2 \<le> length cs"
    and wf: "\<forall>c \<in> set cs. wf_node c"
  shows "\<exists>root d. build_levels pc minP cs levels = Some (Inr (root, d)) \<and> wf_node root"
  using n wf
proof (induction "length cs" arbitrary: cs levels rule: less_induct)
  case less
  have nk: "\<forall>i. i + 1 < length cs \<longrightarrow>
      (\<exists>k. node_next_key cs i = Inr k \<and> smallest_key (cs ! (i + 1)) = Some k)"
  proof (intro allI impI)
    fix i assume i: "i + 1 < length cs"
    then have "wf_node (cs ! (i + 1))" using less.prems(2) by simp
    from wf_smallest_key [OF this] show
      "\<exists>k. node_next_key cs i = Inr k \<and> smallest_key (cs ! (i + 1)) = Some k"
      using i by (simp add: node_next_key_def)
  qed
  from build_level_ok [OF pc minP less.prems(2) nk less.prems(1)] obtain ps where
    ps: "build_level pc minP (node_next_key cs) cs = Inr ps"
      "length ps = ceil_div (length cs) pc" "\<forall>p \<in> set ps. wf_node p"
    by blast
  show ?case
  proof (cases "length ps = 1")
    case True
    then have "wf_node (ps ! 0)" using ps(3) by simp
    then show ?thesis
      using ps(1) True by (subst build_levels.simps) simp
  next
    case False
    have "0 < length ps"
      unfolding ps(2) using pc less.prems(1) by (intro ceil_div_pos) auto
    then have two: "2 \<le> length ps" using False by linarith
    have "length ps < length cs"
      unfolding ps(2) using pc less.prems(1) by (intro ceil_div_less) auto
    from less.hyps [OF this two ps(3)] obtain root d where
      "build_levels pc minP ps (levels + 1) = Some (Inr (root, d))" "wf_node root"
      by blast
    then show ?thesis
      using ps(1) False by (subst build_levels.simps) simp
  qed
qed

subsection \<open>The leaves\<close>

lemma leaf_slice_start:
  assumes "0 < epl" "i < ceil_div len epl" "0 < len"
  shows "i * epl < len"
proof -
  have "i \<le> (len - 1) div epl" using assms by (simp add: ceil_div_Suc)
  then have "i * epl \<le> ((len - 1) div epl) * epl" by simp
  also have "\<dots> \<le> len - 1" by simp
  finally show ?thesis using assms(3) by simp
qed

lemma take_drop_first:
  assumes "m < length xs" "0 < epl"
  shows "\<exists>rest. take epl (drop m xs) = xs ! m # rest"
proof -
  have "drop m xs = xs ! m # drop (Suc m) xs"
    using assms(1) by (simp add: Cons_nth_drop_Suc)
  then show ?thesis using assms(2) by (cases epl) simp_all
qed

lemma make_leaves_ok:
  assumes srt: "sorted (map fst list)" and epl: "0 < epl"
    and nl: "nl = ceil_div (length list) epl" "2 \<le> nl"
  shows "\<forall>c \<in> set (make_leaves list epl nl). wf_node c"
    and "\<forall>i. i + 1 < length (make_leaves list epl nl) \<longrightarrow>
           (\<exists>k. leaf_next_key list epl i = Inr k
               \<and> smallest_key (make_leaves list epl nl ! (i + 1)) = Some k)"
    and "length (make_leaves list epl nl) = nl"
proof -
  have len0: "0 < length list"
  proof (rule ccontr)
    assume "\<not> 0 < length list"
    then have "ceil_div (length list) epl = 0" using epl by (simp add: ceil_div_def)
    then show False using nl by simp
  qed
  have start: "i * epl < length list" if "i < nl" for i
    using leaf_slice_start [OF epl _ len0] that nl(1) by simp
  have slice: "sorted (map fst (take epl (drop m list)))" for m
  proof -
    have "map fst (take epl (drop m list)) = take epl (drop m (map fst list))"
      by (simp add: take_map drop_map)
    then show ?thesis using srt by (simp only: sorted_wrt_take sorted_wrt_drop)
  qed
  show "length (make_leaves list epl nl) = nl" by (simp add: make_leaves_def)
  show "\<forall>c \<in> set (make_leaves list epl nl). wf_node c"
  proof
    fix c assume "c \<in> set (make_leaves list epl nl)"
    then obtain i where i: "i < nl" and c: "c = Leaf (take epl (drop (i * epl) list))"
      by (auto simp: make_leaves_def)
    from start [OF i] epl have "take epl (drop (i * epl) list) \<noteq> []"
      by simp
    moreover have "sorted (map fst (take epl (drop (i * epl) list)))"
      by (rule slice)
    ultimately show "wf_node c" using c by simp
  qed
  show "\<forall>i. i + 1 < length (make_leaves list epl nl) \<longrightarrow>
           (\<exists>k. leaf_next_key list epl i = Inr k
               \<and> smallest_key (make_leaves list epl nl ! (i + 1)) = Some k)"
  proof (intro allI impI)
    fix i assume "i + 1 < length (make_leaves list epl nl)"
    then have i: "i + 1 < nl" by (simp add: make_leaves_def)
    from start [OF this] have lt: "i * epl + epl < length list" by simp
    from take_drop_first [OF this epl] obtain rest where
      rest: "take epl (drop (i * epl + epl) list) = list ! (i * epl + epl) # rest" by blast
    have "sorted (map fst (take epl (drop (i * epl + epl) list)))"
      by (rule slice)
    then have "smallest_key (Leaf (take epl (drop (i * epl + epl) list)))
        = Some (fst (list ! (i * epl + epl)))"
      unfolding rest by (rule smallest_key_sorted_leaf)
    then have "smallest_key (make_leaves list epl nl ! (i + 1)) = Some (fst (list ! (i * epl + epl)))"
      using i by (simp add: make_leaves_def add.commute)
    then show "\<exists>k. leaf_next_key list epl i = Inr k
               \<and> smallest_key (make_leaves list epl nl ! (i + 1)) = Some k"
      using lt by (simp add: leaf_next_key_def Let_def)
  qed
qed


subsection \<open>The tree that \<^verbatim>\<open>create\<close> returns\<close>

definition valid_maxEntries :: "nat option \<Rightarrow> bool" where
  "valid_maxEntries maxEntries = (case maxEntries of None \<Rightarrow> True | Some m \<Rightarrow> 2 \<le> m)"

lemma entriesPerNode_of_ge:
  "valid_maxEntries maxEntries \<Longrightarrow> 2 \<le> entriesPerNode_of maxEntries len"
  by (cases maxEntries) (simp_all add: valid_maxEntries_def entriesPerNode_of_def)

text \<open>
  C1. For every builder, whatever has been added to it, and every \<^verbatim>\<open>maxEntries\<close> that is left
  out or at least 2, \<^verbatim>\<open>create\<close> returns a tree (it neither throws nor loops), and in that tree
  the key of every entry of every node is the smallest key of the leftmost leaf under the
  child where the keys from that key on are found. The nodes whose entries were moved from
  the previous parent are among them.
\<close>

theorem create_routing_keys:
  assumes "valid_maxEntries maxEntries"
  shows "\<exists>tree. create b maxEntries = Some (Inr tree) \<and> routing_ok (bt_root tree)"
proof -
  define list where "list = sort_key fst (blist b)"
  define epn where "epn = entriesPerNode_of maxEntries (length list)"
  define epl where "epl = entriesPerLeaf_of epn (fillFactor b)"
  define minP where "minP = max 1 (epn div 2)"
  define nl where "nl = max 1 (ceil_div (length list) epl)"
  define pc where "pc = epn + 1"
  define cs where "cs = make_leaves list epl nl"
  define tree :: "('a, 'b) bnode \<times> nat \<Rightarrow> ('a, 'b) built_tree" where
    "tree = (\<lambda>(r, levels). \<lparr>bt_root = r, bt_depth = levels, bt_maxEntriesPerNode = epn,
                bt_uniqueKeys = b_uniqueKeys b, bt_fillFactor = fillFactor b\<rparr>)"
  have cr: "create b maxEntries =
     (case build_level pc minP (leaf_next_key list epl) cs of
        Inl e \<Rightarrow> Some (Inl e)
      | Inr parentNodes \<Rightarrow>
          if nl = 1 then Some (Inr (tree (cs ! 0, 0)))
          else if length parentNodes = 1 then Some (Inr (tree (parentNodes ! 0, 0)))
          else map_option (map_sum id tree) (build_levels pc minP parentNodes 1))"
    unfolding create_def Let_def list_def epn_def epl_def minP_def nl_def pc_def cs_def tree_def
    by (rule refl)
  have root: "bt_root (tree (r, d)) = r" for r d by (simp add: tree_def)
  have epn: "2 \<le> epn" unfolding epn_def using assms by (rule entriesPerNode_of_ge)
  have epl: "0 < epl" by (simp add: epl_def entriesPerLeaf_of_def)
  have pc: "3 \<le> pc" using epn by (simp add: pc_def)
  have minP: "1 \<le> minP" "minP < pc - 1" using epn by (auto simp: minP_def pc_def)
  have srt: "sorted (map fst list)" unfolding list_def by (rule sorted_sort_key)
  show ?thesis
  proof (cases "nl = 1")
    case True
    then have "length cs = 1" by (simp add: cs_def make_leaves_def)
    from build_level_single [OF _ this, of pc minP "leaf_next_key list epl"] pc
    obtain ps where ps: "build_level pc minP (leaf_next_key list epl) cs = Inr ps" by auto
    have "cs ! 0 = Leaf (take epl list)" using True by (simp add: cs_def make_leaves_def)
    moreover have "map fst (take epl list) = take epl (map fst list)" by (simp add: take_map)
    then have "sorted (map fst (take epl list))" using srt by (simp only: sorted_wrt_take)
    ultimately have "routing_ok (cs ! 0)" by simp
    then show ?thesis using ps True by (simp add: cr root)
  next
    case False
    then have nl: "nl = ceil_div (length list) epl" "2 \<le> nl" by (auto simp: nl_def)
    note lv = make_leaves_ok [OF srt epl nl, folded cs_def]
    have n: "2 \<le> length cs" using lv(3) nl(2) by simp
    from build_level_ok [OF pc minP lv(1) lv(2) n] obtain ps where
      ps: "build_level pc minP (leaf_next_key list epl) cs = Inr ps"
        "length ps = ceil_div (length cs) pc" "\<forall>p \<in> set ps. wf_node p"
      by blast
    show ?thesis
    proof (cases "length ps = 1")
      case True
      then have "wf_node (ps ! 0)" using ps(3) by simp
      then have "routing_ok (ps ! 0)" by (rule wf_routing_ok)
      then show ?thesis using ps(1) True False by (simp add: cr root)
    next
      case one: False
      have "0 < length ps"
        unfolding ps(2) using pc n by (intro ceil_div_pos) auto
      then have "2 \<le> length ps" using one by linarith
      from build_levels_ok [OF pc minP this ps(3), of 1] obtain r d where
        r: "build_levels pc minP ps 1 = Some (Inr (r, d))" "wf_node r"
        by blast
      from r(2) have "routing_ok r" by (rule wf_routing_ok)
      then show ?thesis using ps(1) one False r(1) by (simp add: cr root)
    qed
  qed
qed

text \<open>
  The tree of the comment in the source: fifteen keys, three entries per node. The entry
  \<open>10\<close> moved from the first parent to the second one, where its key became \<open>13\<close>, and the
  root has the key \<open>10\<close>.
\<close>

definition example_builder :: "(nat, nat) builder" where
  "example_builder =
     \<lparr>blist = map (\<lambda>i. (i, [100 + i])) (rev [1..<16]), indexedValues = 15,
      b_uniqueKeys = True, fillFactor = 100\<rparr>"

declare build_levels.simps [code]

text \<open>
  The rounding shows in the number of entries of a leaf: \<open>0.58\<close> is a little below
  \<open>58 / 100\<close> as a double, and so is \<open>0.57\<close>.
\<close>

lemma entriesPerLeaf_of_rounded:
  "entriesPerLeaf_of 50 58 = 28" "entriesPerLeaf_of 200 57 = 113"
  "entriesPerLeaf_of 50 60 = 30" "entriesPerLeaf_of 255 100 = 255"
  by code_simp+

theorem create_routing_keys_witness:
  "valid_maxEntries (Some 3)
   \<and> (\<exists>tree. create example_builder (Some 3) = Some (Inr tree) \<and> routing_ok (bt_root tree))"
  using create_routing_keys [of "Some 3" example_builder] by (simp add: valid_maxEntries_def)

lemma create_example:
  "create example_builder (Some 3) =
     Some (Inr \<lparr>bt_root =
       Node
         [(10,
           Node
             [(4, Leaf [(1, [101]), (2, [102]), (3, [103])]),
              (7, Leaf [(4, [104]), (5, [105]), (6, [106])])]
             (Some (Leaf [(7, [107]), (8, [108]), (9, [109])])))]
         (Some
           (Node [(13, Leaf [(10, [110]), (11, [111]), (12, [112])])]
             (Some (Leaf [(13, [113]), (14, [114]), (15, [115])])))),
       bt_depth = 1, bt_maxEntriesPerNode = 3, bt_uniqueKeys = True, bt_fillFactor = 100\<rparr>)"
  by code_simp

text \<open>
  With one entry per node the last parent takes the only entry of the parent before it,
  and the level above fails on the node that was left without entries: thirteen keys,
  \<^verbatim>\<open>create(1)\<close>.
\<close>

lemma create_one_entry_per_node:
  "create (example_builder\<lparr>blist := drop 2 (blist example_builder)\<rparr>) (Some 1)
     = Some (Inl BuildTypeError)"
  by code_simp

end
